theory Spec2Isabelle
  imports Complex_Main "HOL-Library.Product_Lexorder"
begin

section \<open>Coordinates, sequences and geometries\<close>

text \<open>
  The Go type \<^verbatim>\<open>XY\<close> is a pair of float64 coordinates. A finite float64 is the
  real number it denotes, so a coordinate is a real. The DCEL builder, the interaction
  finder and the convex hull compare coordinates (\<^verbatim>\<open>==\<close>, \<^verbatim>\<open><\<close>, \<^verbatim>\<open>Less\<close>),
  which is exact on float64; the only arithmetic on coordinates is in the turn test of the
  convex hull, where every operation rounds (\<open>round64\<close> below). A \<^verbatim>\<open>Sequence\<close> is
  used through its XY projection only and is a list of XY.
\<close>

type_synonym XY = "real \<times> real"

text \<open>
  Modelled from the spec: \<^verbatim>\<open>XY.Less\<close> is not in the sources; the spec fixes it
  as the lexicographic order, X first and then Y.
\<close>

definition xyLess :: "XY \<Rightarrow> XY \<Rightarrow> bool" where
  "xyLess a b = (if fst a \<noteq> fst b then fst a < fst b else snd a < snd b)"

text \<open>
  The tagged union \<^verbatim>\<open>Geometry\<close>. A point and an element of a multi-point may be
  empty (\<^verbatim>\<open>XY()\<close> returns \<^verbatim>\<open>ok = false\<close>), a polygon is its list of rings
  (exterior first), and the empty polygon has no ring.
\<close>

datatype geometry =
    Point "XY option"
  | LineString "XY list"
  | Polygon "XY list list"
  | MultiPoint "XY option list"
  | MultiLineString "XY list list"
  | MultiPolygon "XY list list list"
  | GeometryCollection "geometry list"

text \<open>Every panic of the sources is a value of this type.\<close>

datatype error =
    UnsupportedGeometry
  | NilVertex
  | NilHalfEdge
  | IndexOutOfRange
  | SliceOutOfRange
  | InvalidRing
  | InvalidPolygon

section \<open>Interaction points (dcel\_interaction\_points.go)\<close>

text \<open>
  The finder threads two Go maps through every call: \<^verbatim>\<open>adjacents\<close>, from a
  coordinate to the canonical pair of its neighbours, and \<^verbatim>\<open>interactions\<close>, a set.
\<close>

type_synonym xyPair = "XY \<times> XY"

type_synonym finderState = "(XY \<rightharpoonup> xyPair) \<times> XY set"

definition addPointInteractions :: "XY option \<Rightarrow> XY set \<Rightarrow> XY set" where
  "addPointInteractions pt interactions =
     (case pt of None \<Rightarrow> interactions | Some xy \<Rightarrow> insert xy interactions)"

definition addMultiPointInteractions :: "XY option list \<Rightarrow> XY set \<Rightarrow> XY set" where
  "addMultiPointInteractions mp interactions = fold addPointInteractions mp interactions"

text \<open>
  The body of the loop of \<^verbatim>\<open>addLineStringInteractions\<close> at one index, given the
  three coordinates it reads there.
\<close>

definition canonicalPair :: "XY \<Rightarrow> XY \<Rightarrow> xyPair" where
  "canonicalPair prv nxt = (if xyLess nxt prv then (nxt, prv) else (prv, nxt))"

definition lineStringStep :: "XY \<Rightarrow> XY \<Rightarrow> XY \<Rightarrow> finderState \<Rightarrow> finderState" where
  "lineStringStep prv cur nxt st =
     (case st of (adjacents, interactions) \<Rightarrow>
        if prv = nxt then (adjacents, insert cur interactions)
        else
          let adj = canonicalPair prv nxt in
          (case adjacents cur of
             Some existing \<Rightarrow>
               (adjacents, if existing \<noteq> adj then insert cur interactions else interactions)
           | None \<Rightarrow> (adjacents(cur \<mapsto> adj), interactions)))"

definition lineStringIndexStep :: "XY list \<Rightarrow> nat \<Rightarrow> finderState \<Rightarrow> finderState" where
  "lineStringIndexStep s i st = lineStringStep (s ! (i - 1)) (s ! i) (s ! (i + 1)) st"

text \<open>
  \<^verbatim>\<open>StartPoint\<close> and \<^verbatim>\<open>EndPoint\<close> of an empty line string are empty points. The
  loop runs over the indices \<^verbatim>\<open>1 \<le> i\<close>, \<^verbatim>\<open>i + 1 < n\<close>, so every read is in range.
\<close>

definition addEndpoints :: "XY list \<Rightarrow> XY set \<Rightarrow> XY set" where
  "addEndpoints s interactions =
     (case s of [] \<Rightarrow> interactions | _ \<Rightarrow> insert (last s) (insert (hd s) interactions))"

definition addLineStringInteractions :: "XY list \<Rightarrow> finderState \<Rightarrow> finderState" where
  "addLineStringInteractions s st =
     (case st of (adjacents, interactions) \<Rightarrow>
        fold (lineStringIndexStep s) [1 ..< length s - 1]
          (adjacents, addEndpoints s interactions))"

definition addMultiLineStringInteractions :: "XY list list \<Rightarrow> finderState \<Rightarrow> finderState" where
  "addMultiLineStringInteractions mls st = fold addLineStringInteractions mls st"

text \<open>
  Modelled from the spec: \<^verbatim>\<open>Boundary()\<close> of a polygon or multi-polygon is not in the
  sources; the spec gives it as the multi-line-string of the rings, exterior and holes.
\<close>

definition polygonBoundary :: "XY list list \<Rightarrow> XY list list" where
  "polygonBoundary rings = rings"

definition multiPolygonBoundary :: "XY list list list \<Rightarrow> XY list list" where
  "multiPolygonBoundary polys = concat (map polygonBoundary polys)"

fun addGeometryInteractions :: "geometry \<Rightarrow> finderState \<Rightarrow> error + finderState" where
  "addGeometryInteractions (Point pt) (adjacents, interactions) =
     Inr (adjacents, addPointInteractions pt interactions)"
| "addGeometryInteractions (MultiPoint mp) (adjacents, interactions) =
     Inr (adjacents, addMultiPointInteractions mp interactions)"
| "addGeometryInteractions (LineString s) st = Inr (addLineStringInteractions s st)"
| "addGeometryInteractions (MultiLineString mls) st =
     Inr (addMultiLineStringInteractions mls st)"
| "addGeometryInteractions (Polygon rings) st =
     Inr (addMultiLineStringInteractions (polygonBoundary rings) st)"
| "addGeometryInteractions (MultiPolygon polys) st =
     Inr (addMultiLineStringInteractions (multiPolygonBoundary polys) st)"
| "addGeometryInteractions (GeometryCollection gs) st = Inl UnsupportedGeometry"

fun findLoop :: "geometry list \<Rightarrow> finderState \<Rightarrow> error + finderState" where
  "findLoop [] st = Inr st"
| "findLoop (g # gs) st =
     (case addGeometryInteractions g st of
        Inl e \<Rightarrow> Inl e
      | Inr st' \<Rightarrow> findLoop gs st')"

definition findInteractionPoints :: "geometry list \<Rightarrow> error + XY set" where
  "findInteractionPoints gs =
     (case findLoop gs (Map.empty, {}) of
        Inl e \<Rightarrow> Inl e
      | Inr (adjacents, interactions) \<Rightarrow> Inr interactions)"


section \<open>The doubly connected edge list (dcel.go)\<close>

text \<open>
  The Go type \<^verbatim>\<open>operand\<close> indexes the arrays \<^verbatim>\<open>[2]bool\<close> and
  \<^verbatim>\<open>[2]location\<close>; it has the two values 0 and 1, and an array of two is a
  function on it.
\<close>

datatype operand = OperandA | OperandB

text \<open>
  Modelled from the spec: the type \<^verbatim>\<open>location\<close> and the function
  \<^verbatim>\<open>newLocationsOnBoundary\<close> are not in the sources. The spec gives a location as
  the two flags boundary and interior, and has a ring vertex start as on the boundary
  for the operand that adds it.
\<close>

record location =
  boundary :: bool
  interior :: bool

definition noLocation :: location where
  "noLocation = \<lparr>boundary = False, interior = False\<rparr>"

definition newLocationsOnBoundary :: "operand \<Rightarrow> operand \<Rightarrow> location" where
  "newLocationsOnBoundary op = (\<lambda>_. noLocation)(op := \<lparr>boundary = True, interior = False\<rparr>)"

text \<open>
  The records point at each other. A \<^verbatim>\<open>*vertexRecord\<close> is created once for its
  coordinate and stored under it in \<^verbatim>\<open>vertices\<close>, so the coordinate is its address.
  Every \<^verbatim>\<open>*halfEdgeRecord\<close> that is created ends up in \<^verbatim>\<open>halfEdges\<close>, which is
  only ever appended to, so the position there is its address; \<^verbatim>\<open>nil\<close> is
  \<open>None\<close>. The field \<^verbatim>\<open>next\<close> is \<open>nextE\<close> here and \<^verbatim>\<open>prev\<close> is \<open>prevE\<close>.
\<close>

record faceRecord =
  cycle :: "nat option"
  inSetF :: "operand \<Rightarrow> bool"
  extractedF :: bool

record halfEdgeRecord =
  origin :: XY
  twin :: "nat option"
  incident :: "nat option"
  nextE :: "nat option"
  prevE :: "nat option"
  seq :: "XY list"
  srcEdge :: "operand \<Rightarrow> bool"
  srcFace :: "operand \<Rightarrow> bool"
  inSetE :: "operand \<Rightarrow> bool"
  extractedE :: bool

record vertexRecord =
  coords :: XY
  incidents :: "nat list"
  src :: "operand \<Rightarrow> bool"
  inSetV :: "operand \<Rightarrow> bool"
  locations :: "operand \<Rightarrow> location"
  extractedV :: bool

record doublyConnectedEdgeList =
  faces :: "faceRecord list"
  halfEdges :: "halfEdgeRecord list"
  vertices :: "XY \<rightharpoonup> vertexRecord"

definition emptyDCEL :: doublyConnectedEdgeList where
  "emptyDCEL = \<lparr>faces = [], halfEdges = [], vertices = Map.empty\<rparr>"

text \<open>The zero value of a Go struct, with the fields a composite literal sets.\<close>

definition newVertex :: "XY \<Rightarrow> vertexRecord" where
  "newVertex xy = \<lparr>coords = xy, incidents = [], src = (\<lambda>_. False), inSetV = (\<lambda>_. False),
     locations = (\<lambda>_. noLocation), extractedV = False\<rparr>"

definition newHalfEdge :: "XY \<Rightarrow> nat option \<Rightarrow> nat option \<Rightarrow> nat option \<Rightarrow> XY list
    \<Rightarrow> halfEdgeRecord" where
  "newHalfEdge org tw nx pv sq = \<lparr>origin = org, twin = tw, incident = None, nextE = nx,
     prevE = pv, seq = sq, srcEdge = (\<lambda>_. False), srcFace = (\<lambda>_. False),
     inSetE = (\<lambda>_. False), extractedE = False\<rparr>"

text \<open>A result is an error or a value; a computation that may loop forever wraps it in option.\<close>

definition bindE :: "error + 'a \<Rightarrow> ('a \<Rightarrow> error + 'b) \<Rightarrow> error + 'b" where
  "bindE m f = (case m of Inl e \<Rightarrow> Inl e | Inr x \<Rightarrow> f x)"

fun foldRes :: "('a \<Rightarrow> 's \<Rightarrow> (error + 's) option) \<Rightarrow> 'a list \<Rightarrow> 's \<Rightarrow> (error + 's) option" where
  "foldRes f [] st = Some (Inr st)"
| "foldRes f (x # xs) st =
     (case f x st of
        None \<Rightarrow> None
      | Some (Inl e) \<Rightarrow> Some (Inl e)
      | Some (Inr st') \<Rightarrow> foldRes f xs st')"

text \<open>
  Modelled from the spec: \<^verbatim>\<open>Sequence.GetXY\<close>, \<^verbatim>\<open>Sequence.Slice\<close> and
  \<^verbatim>\<open>reverseSequence\<close> are not in the sources. The spec names them as indexing,
  slicing and the reversed view; out of range they panic as Go slices do.
\<close>

definition getXY :: "XY list \<Rightarrow> nat \<Rightarrow> error + XY" where
  "getXY s i = (if i < length s then Inr (s ! i) else Inl IndexOutOfRange)"

definition slice :: "XY list \<Rightarrow> nat \<Rightarrow> nat \<Rightarrow> error + XY list" where
  "slice s i j = (if i \<le> j \<and> j \<le> length s then Inr (take (j - i) (drop i s))
                  else Inl SliceOutOfRange)"

definition reverseSequence :: "XY list \<Rightarrow> XY list" where
  "reverseSequence s = rev s"

subsection \<open>forEachNonInteractingSegment\<close>

text \<open>
  The inner scan: the first index after \<open>i\<close> whose coordinate is an interaction
  point; \<^verbatim>\<open>end\<close> keeps its zero value when there is none.
\<close>

definition findEnd :: "XY list \<Rightarrow> XY set \<Rightarrow> nat \<Rightarrow> nat" where
  "findEnd s interactions i =
     (case List.find (\<lambda>j. s ! j \<in> interactions) [i + 1 ..< length s] of
        None \<Rightarrow> 0
      | Some j \<Rightarrow> j)"

text \<open>
  The outer loop from index \<open>i\<close>, with the state the callback works on passed
  through. The loop does not return when the scan keeps finding nothing: that is the
  value \<open>None\<close>.
\<close>

partial_function (option) segmentLoop ::
    "XY list \<Rightarrow> XY set \<Rightarrow> (XY list \<Rightarrow> 's \<Rightarrow> error + 's) \<Rightarrow> nat \<Rightarrow> 's \<Rightarrow> (error + 's) option" where
  "segmentLoop s interactions fn i st =
     (if i < length s - 1 then
        (case slice s i (findEnd s interactions i + 1) of
           Inl e \<Rightarrow> Some (Inl e)
         | Inr segment \<Rightarrow>
             (case fn segment st of
                Inl e \<Rightarrow> Some (Inl e)
              | Inr st' \<Rightarrow> segmentLoop s interactions fn (findEnd s interactions i) st'))
      else Some (Inr st))"

definition forEachNonInteractingSegment ::
    "XY list \<Rightarrow> XY set \<Rightarrow> (XY list \<Rightarrow> 's \<Rightarrow> error + 's) \<Rightarrow> 's \<Rightarrow> (error + 's) option" where
  "forEachNonInteractingSegment s interactions fn st = segmentLoop s interactions fn 0 st"


subsection \<open>Vertices and incidences\<close>

definition setFlag :: "operand \<Rightarrow> operand \<Rightarrow> bool" where
  "setFlag op = (\<lambda>_. False)(op := True)"

text \<open>
  \<^verbatim>\<open>v.incidents = append(v.incidents, e)\<close> through the pointer \<open>v\<close> read from
  \<^verbatim>\<open>d.vertices\<close>; a missing key reads as \<^verbatim>\<open>nil\<close> and the write panics.
\<close>

definition appendIncident :: "XY \<Rightarrow> nat \<Rightarrow> doublyConnectedEdgeList
    \<Rightarrow> error + doublyConnectedEdgeList" where
  "appendIncident xy e d =
     (case vertices d xy of
        None \<Rightarrow> Inl NilVertex
      | Some v \<Rightarrow> Inr (d\<lparr>vertices := (vertices d)(xy \<mapsto> v\<lparr>incidents := incidents v @ [e]\<rparr>)\<rparr>))"

subsection \<open>addMultiPolygon\<close>

text \<open>
  Modelled from the spec: \<^verbatim>\<open>ForceCCW\<close> is not in the sources. The spec has it
  force the canonical orientation, exterior ring counter-clockwise and holes clockwise;
  the orientation of a ring is the sign of its signed area.
\<close>

fun shoelace :: "XY list \<Rightarrow> real" where
  "shoelace (a # b # rest) = (fst a * snd b - fst b * snd a) + shoelace (b # rest)"
| "shoelace _ = 0"

definition signedArea :: "XY list \<Rightarrow> real" where
  "signedArea ring = shoelace ring / 2"

definition forceCCWPolygon :: "XY list list \<Rightarrow> XY list list" where
  "forceCCWPolygon rings =
     (case rings of
        [] \<Rightarrow> []
      | ext # holes \<Rightarrow>
          (if signedArea ext < 0 then rev ext else ext)
            # map (\<lambda>h. if 0 < signedArea h then rev h else h) holes)"

definition forceCCW :: "XY list list list \<Rightarrow> XY list list list" where
  "forceCCW mp = map forceCCWPolygon mp"

text \<open>
  The exterior ring of the empty polygon is the empty line string, so the slice
  \<^verbatim>\<open>rings\<close> always has a first element.
\<close>

definition polygonRings :: "XY list list \<Rightarrow> XY list list" where
  "polygonRings poly = (case poly of [] \<Rightarrow> [[]] | _ \<Rightarrow> poly)"

definition ringVertexStep :: "operand \<Rightarrow> XY set \<Rightarrow> XY \<Rightarrow> (XY \<rightharpoonup> vertexRecord)
    \<Rightarrow> (XY \<rightharpoonup> vertexRecord)" where
  "ringVertexStep op interactions xy verts =
     (if xy \<notin> interactions then verts
      else
        (case verts xy of
           Some _ \<Rightarrow> verts
         | None \<Rightarrow>
             verts(xy \<mapsto> (newVertex xy)\<lparr>locations := newLocationsOnBoundary op,
                                         src := setFlag op\<rparr>)))"

definition populateRingVertices :: "operand \<Rightarrow> XY set \<Rightarrow> XY list list
    \<Rightarrow> doublyConnectedEdgeList \<Rightarrow> doublyConnectedEdgeList" where
  "populateRingVertices op interactions rings d =
     d\<lparr>vertices := fold (\<lambda>ring. fold (ringVertexStep op interactions) ring) rings (vertices d)\<rparr>"

text \<open>
  The callback of the ring loop. Its state is the DCEL and the slice \<^verbatim>\<open>newEdges\<close>;
  the two records it creates will sit at the end of \<^verbatim>\<open>halfEdges\<close> once the ring is
  appended, behind the edges created before them for this ring.
\<close>

definition ringSegment :: "operand \<Rightarrow> XY list \<Rightarrow> doublyConnectedEdgeList \<times> halfEdgeRecord list
    \<Rightarrow> error + doublyConnectedEdgeList \<times> halfEdgeRecord list" where
  "ringSegment op segment st =
     (case st of (d, newEdges) \<Rightarrow>
        let reverseSegment = reverseSequence segment in
        bindE (getXY segment 0) (\<lambda>xyA.
        bindE (getXY reverseSegment 0) (\<lambda>xyB.
          let pInternal = length (halfEdges d) + length newEdges;
              pExternal = pInternal + 1;
              internalEdge = (newHalfEdge xyA (Some pExternal) None None segment)
                \<lparr>srcEdge := setFlag op, srcFace := setFlag op\<rparr>;
              externalEdge = (newHalfEdge xyB (Some pInternal) None None reverseSegment)
                \<lparr>srcEdge := setFlag op\<rparr>
          in
          bindE (appendIncident xyA pInternal d) (\<lambda>d1.
          bindE (appendIncident xyB pExternal d1) (\<lambda>d2.
            Inr (d2, newEdges @ [internalEdge, externalEdge]))))))"

text \<open>
  Linking \<^verbatim>\<open>next\<close> and \<^verbatim>\<open>prev\<close> within \<^verbatim>\<open>newEdges\<close>; \<open>base\<close> is the
  length of \<^verbatim>\<open>halfEdges\<close> before the ring is appended. The Go indices
  \<^verbatim>\<open>2*i-1+numEdges\<close> and \<^verbatim>\<open>2*i-2+numEdges\<close> are not negative inside the loop.
\<close>

definition linkStep :: "nat \<Rightarrow> nat \<Rightarrow> nat \<Rightarrow> halfEdgeRecord list \<Rightarrow> halfEdgeRecord list" where
  "linkStep base numEdges i es =
     (let es1 = es[i * 2 + 0 := (es ! (i * 2 + 0))\<lparr>nextE := Some (base + (2 * i + 2) mod numEdges)\<rparr>];
          es2 = es1[i * 2 + 1 := (es1 ! (i * 2 + 1))\<lparr>nextE := Some (base + (2 * i + numEdges - 1) mod numEdges)\<rparr>];
          es3 = es2[i * 2 + 0 := (es2 ! (i * 2 + 0))\<lparr>prevE := Some (base + (2 * i + numEdges - 2) mod numEdges)\<rparr>];
          es4 = es3[i * 2 + 1 := (es3 ! (i * 2 + 1))\<lparr>prevE := Some (base + (2 * i + 3) mod numEdges)\<rparr>]
      in es4)"

definition linkRing :: "nat \<Rightarrow> halfEdgeRecord list \<Rightarrow> halfEdgeRecord list" where
  "linkRing base newEdges =
     fold (linkStep base (length newEdges)) [0 ..< length newEdges div 2] newEdges"

definition addRing :: "operand \<Rightarrow> XY set \<Rightarrow> XY list \<Rightarrow> doublyConnectedEdgeList
    \<Rightarrow> (error + doublyConnectedEdgeList) option" where
  "addRing op interactions ring d =
     (case forEachNonInteractingSegment ring interactions (ringSegment op) (d, []) of
        None \<Rightarrow> None
      | Some (Inl e) \<Rightarrow> Some (Inl e)
      | Some (Inr (d', newEdges)) \<Rightarrow>
          Some (Inr (d'\<lparr>halfEdges := halfEdges d' @ linkRing (length (halfEdges d')) newEdges\<rparr>)))"

definition addPolygon :: "operand \<Rightarrow> XY set \<Rightarrow> XY list list \<Rightarrow> doublyConnectedEdgeList
    \<Rightarrow> (error + doublyConnectedEdgeList) option" where
  "addPolygon op interactions poly d =
     (let rings = polygonRings poly in
      foldRes (addRing op interactions) rings (populateRingVertices op interactions rings d))"

definition addMultiPolygon :: "XY list list list \<Rightarrow> operand \<Rightarrow> XY set \<Rightarrow> doublyConnectedEdgeList
    \<Rightarrow> (error + doublyConnectedEdgeList) option" where
  "addMultiPolygon mp op interactions d =
     foldRes (addPolygon op interactions) (forceCCW mp) d"

subsection \<open>addMultiLineString\<close>

text \<open>
  Modelled from the spec: \<^verbatim>\<open>IsClosed\<close> is not in the sources; a line string is
  closed when it is not empty and its first and last coordinates are equal.
\<close>

definition isClosed :: "XY list \<Rightarrow> bool" where
  "isClosed s = (s \<noteq> [] \<and> hd s = last s)"

text \<open>The body of the vertex loop for a coordinate that is an interaction point.\<close>

definition lineVertexStep :: "operand \<Rightarrow> bool \<Rightarrow> XY \<Rightarrow> (XY \<rightharpoonup> vertexRecord)
    \<Rightarrow> (XY \<rightharpoonup> vertexRecord)" where
  "lineVertexStep op onBoundary xy verts =
     (case verts xy of
        None \<Rightarrow>
          verts(xy \<mapsto> (newVertex xy)
            \<lparr>locations := (\<lambda>_. noLocation)
               (op := (if onBoundary then \<lparr>boundary = True, interior = False\<rparr>
                       else \<lparr>boundary = False, interior = True\<rparr>)),
             src := setFlag op\<rparr>)
      | Some v \<Rightarrow>
          verts(xy \<mapsto> v\<lparr>locations := (locations v)
            (op := (if onBoundary then
                      (if boundary (locations v op)
                       then (locations v op)\<lparr>boundary := False, interior := True\<rparr>
                       else (locations v op)\<lparr>boundary := True, interior := False\<rparr>)
                    else (locations v op)\<lparr>interior := True\<rparr>))\<rparr>))"

definition lineVertexIndexStep :: "operand \<Rightarrow> XY set \<Rightarrow> XY list \<Rightarrow> nat
    \<Rightarrow> (XY \<rightharpoonup> vertexRecord) \<Rightarrow> (XY \<rightharpoonup> vertexRecord)" where
  "lineVertexIndexStep op interactions s j verts =
     (if s ! j \<notin> interactions then verts
      else lineVertexStep op ((j = 0 \<or> j = length s - 1) \<and> \<not> isClosed s) (s ! j) verts)"

definition addLineVertices :: "operand \<Rightarrow> XY set \<Rightarrow> XY list
    \<Rightarrow> (XY \<rightharpoonup> vertexRecord) \<Rightarrow> (XY \<rightharpoonup> vertexRecord)" where
  "addLineVertices op interactions s verts =
     fold (lineVertexIndexStep op interactions s) [0 ..< length s] verts"

text \<open>
  Modelled from the spec: the type \<^verbatim>\<open>edgeSet\<close> and its methods are not in the
  sources. The spec keys the set by the start, the interior coordinates and the end of a
  segment, which is the coordinate list of the segment.
\<close>

type_synonym edgeSet = "XY list set"

definition containsStartIntermediateEnd :: "edgeSet \<Rightarrow> XY list \<Rightarrow> bool" where
  "containsStartIntermediateEnd edges segment = (segment \<in> edges)"

definition insertStartIntermediateEnd :: "XY list \<Rightarrow> edgeSet \<Rightarrow> edgeSet" where
  "insertStartIntermediateEnd segment edges = insert segment edges"

definition insertEdge :: "halfEdgeRecord \<Rightarrow> edgeSet \<Rightarrow> edgeSet" where
  "insertEdge e edges = insert (seq e) edges"

text \<open>
  The callback of the edge loop; its state is the DCEL and the edge set. The record the
  source calls \<^verbatim>\<open>rev\<close> is \<open>bwd\<close> here.
\<close>

definition lineSegment :: "operand \<Rightarrow> XY list \<Rightarrow> doublyConnectedEdgeList \<times> edgeSet
    \<Rightarrow> error + doublyConnectedEdgeList \<times> edgeSet" where
  "lineSegment op segment st =
     (case st of (d, edges) \<Rightarrow>
        let reverseSegment = reverseSequence segment in
        bindE (getXY segment 0) (\<lambda>startXY.
        bindE (getXY reverseSegment 0) (\<lambda>endXY.
          if containsStartIntermediateEnd edges segment then Inr (d, edges)
          else
            let edges' = insertStartIntermediateEnd reverseSegment
                           (insertStartIntermediateEnd segment edges);
                pFwd = length (halfEdges d);
                pRev = pFwd + 1;
                fwd = (newHalfEdge startXY (Some pRev) (Some pRev) (Some pRev) segment)
                  \<lparr>srcEdge := setFlag op\<rparr>;
                bwd = (newHalfEdge endXY (Some pFwd) (Some pFwd) (Some pFwd) reverseSegment)
                  \<lparr>srcEdge := setFlag op\<rparr>
            in
            bindE (appendIncident startXY pFwd d) (\<lambda>d1.
            bindE (appendIncident endXY pRev d1) (\<lambda>d2.
              Inr (d2\<lparr>halfEdges := halfEdges d2 @ [fwd, bwd]\<rparr>, edges'))))))"

definition addMultiLineString :: "XY list list \<Rightarrow> operand \<Rightarrow> XY set \<Rightarrow> doublyConnectedEdgeList
    \<Rightarrow> (error + doublyConnectedEdgeList) option" where
  "addMultiLineString mls op interactions d =
     (let d1 = d\<lparr>vertices := fold (addLineVertices op interactions) mls (vertices d)\<rparr> in
      case foldRes (\<lambda>s. forEachNonInteractingSegment s interactions (lineSegment op)) mls (d1, {}) of
        None \<Rightarrow> None
      | Some (Inl e) \<Rightarrow> Some (Inl e)
      | Some (Inr (d2, edges)) \<Rightarrow> Some (Inr d2))"

subsection \<open>addMultiPoint, addGeometryCollection and addGeometry\<close>

definition pointStep :: "operand \<Rightarrow> XY option \<Rightarrow> (XY \<rightharpoonup> vertexRecord)
    \<Rightarrow> (XY \<rightharpoonup> vertexRecord)" where
  "pointStep op pt verts =
     (case pt of
        None \<Rightarrow> verts
      | Some xy \<Rightarrow>
          let record = (case verts xy of None \<Rightarrow> newVertex xy | Some r \<Rightarrow> r) in
          verts(xy \<mapsto> record
            \<lparr>src := (src record)(op := True),
             locations := (locations record)(op := (locations record op)\<lparr>interior := True\<rparr>)\<rparr>))"

definition addMultiPoint :: "XY option list \<Rightarrow> operand \<Rightarrow> doublyConnectedEdgeList
    \<Rightarrow> doublyConnectedEdgeList" where
  "addMultiPoint mp op d = d\<lparr>vertices := fold (pointStep op) mp (vertices d)\<rparr>"

text \<open>
  \<^verbatim>\<open>addGeometry\<close> and \<^verbatim>\<open>addGeometryCollection\<close> call each other; the recursion is
  on the children of a collection. The \<^verbatim>\<open>default\<close> branch of the switch has no
  geometry to reach it.
\<close>

primrec addGeometry :: "geometry \<Rightarrow> operand \<Rightarrow> XY set \<Rightarrow> doublyConnectedEdgeList
    \<Rightarrow> (error + doublyConnectedEdgeList) option" where
  "addGeometry (Polygon poly) = (\<lambda>op interactions d. addMultiPolygon [poly] op interactions d)"
| "addGeometry (MultiPolygon mp) = (\<lambda>op interactions d. addMultiPolygon mp op interactions d)"
| "addGeometry (LineString s) = (\<lambda>op interactions d. addMultiLineString [s] op interactions d)"
| "addGeometry (MultiLineString mls) = (\<lambda>op interactions d. addMultiLineString mls op interactions d)"
| "addGeometry (Point pt) = (\<lambda>op interactions d. Some (Inr (addMultiPoint [pt] op d)))"
| "addGeometry (MultiPoint mp) = (\<lambda>op interactions d. Some (Inr (addMultiPoint mp op d)))"
| "addGeometry (GeometryCollection gc) =
     (\<lambda>op interactions d. foldRes (\<lambda>add. add op interactions) (map addGeometry gc) d)"

definition addGeometryCollection :: "geometry list \<Rightarrow> operand \<Rightarrow> XY set \<Rightarrow> doublyConnectedEdgeList
    \<Rightarrow> (error + doublyConnectedEdgeList) option" where
  "addGeometryCollection gc op interactions d =
     foldRes (\<lambda>g. addGeometry g op interactions) gc d"


subsection \<open>Ghost lines\<close>

fun foldE :: "('a \<Rightarrow> 's \<Rightarrow> error + 's) \<Rightarrow> 'a list \<Rightarrow> 's \<Rightarrow> error + 's" where
  "foldE f [] st = Inr st"
| "foldE f (x # xs) st = bindE (f x st) (foldE f xs)"

text \<open>
  Modelled from the spec: \<^verbatim>\<open>fixVertex\<close> is not in the sources. The spec orders the
  half-edges leaving the vertex by the bearing of their first interior coordinate
  relative to the vertex, and threads \<^verbatim>\<open>next\<close> and \<^verbatim>\<open>prev\<close> around the vertex in
  that order: for each edge \<open>ei\<close> and its successor \<open>ej\<close> in the cyclic order, the edge
  coming in along \<open>ej\<close> (the twin of \<open>ej\<close>) continues with \<open>ei\<close>. The bearing of a
  direction is a parameter. Only \<^verbatim>\<open>next\<close> and \<^verbatim>\<open>prev\<close> are written.
\<close>

definition edgeBearing :: "(XY \<Rightarrow> real) \<Rightarrow> XY \<Rightarrow> halfEdgeRecord list \<Rightarrow> nat \<Rightarrow> error + real" where
  "edgeBearing bearing xy hs e =
     (if e < length hs then
        bindE (getXY (seq (hs ! e)) 1) (\<lambda>second.
          Inr (bearing (fst second - fst xy, snd second - snd xy)))
      else Inl NilHalfEdge)"

definition rewireStep :: "nat \<times> nat \<Rightarrow> halfEdgeRecord list \<Rightarrow> error + halfEdgeRecord list" where
  "rewireStep p hs =
     (case p of (ei, ej) \<Rightarrow>
        if ei < length hs \<and> ej < length hs then
          (case twin (hs ! ej) of
             None \<Rightarrow> Inl NilHalfEdge
           | Some t \<Rightarrow>
               if t < length hs then
                 (let hs1 = hs[ei := (hs ! ei)\<lparr>prevE := Some t\<rparr>];
                      hs2 = hs1[t := (hs1 ! t)\<lparr>nextE := Some ei\<rparr>]
                  in Inr hs2)
               else Inl NilHalfEdge)
        else Inl NilHalfEdge)"

definition fixVertex :: "(XY \<Rightarrow> real) \<Rightarrow> XY \<Rightarrow> doublyConnectedEdgeList
    \<Rightarrow> error + doublyConnectedEdgeList" where
  "fixVertex bearing xy d =
     (case vertices d xy of
        None \<Rightarrow> Inl NilVertex
      | Some v \<Rightarrow>
          bindE (foldE (\<lambda>e bs. bindE (edgeBearing bearing xy (halfEdges d) e) (\<lambda>b. Inr (bs @ [(e, b)])))
                   (incidents v) []) (\<lambda>keyed.
            let ordered = map fst (sort_key snd keyed) in
            bindE (foldE rewireStep (zip ordered (rotate1 ordered)) (halfEdges d)) (\<lambda>hs.
              Inr (d\<lparr>halfEdges := hs\<rparr>))))"

definition addGhostLine :: "(XY \<Rightarrow> real) \<Rightarrow> XY list \<Rightarrow> XY list \<Rightarrow> operand \<Rightarrow> doublyConnectedEdgeList
    \<Rightarrow> error + doublyConnectedEdgeList" where
  "addGhostLine bearing segment reverseSegment op d =
     bindE (getXY segment 0) (\<lambda>xyA.
     bindE (getXY reverseSegment 0) (\<lambda>xyB.
       let p1 = length (halfEdges d);
           p2 = p1 + 1;
           e1 = newHalfEdge xyA (Some p2) (Some p2) (Some p2) segment;
           e2 = newHalfEdge xyB (Some p1) (Some p1) (Some p1) reverseSegment
       in
       bindE (appendIncident xyA p1 d) (\<lambda>d1.
       bindE (appendIncident xyB p2 d1) (\<lambda>d2.
       bindE (fixVertex bearing xyA (d2\<lparr>halfEdges := halfEdges d2 @ [e1, e2]\<rparr>)) (\<lambda>d3.
         fixVertex bearing xyB d3)))))"

definition ensureVertex :: "XY \<Rightarrow> doublyConnectedEdgeList \<Rightarrow> doublyConnectedEdgeList" where
  "ensureVertex xy d =
     (case vertices d xy of
        Some _ \<Rightarrow> d
      | None \<Rightarrow> d\<lparr>vertices := (vertices d)(xy \<mapsto> newVertex xy)\<rparr>)"

definition ghostSegment :: "(XY \<Rightarrow> real) \<Rightarrow> operand \<Rightarrow> XY list \<Rightarrow> doublyConnectedEdgeList \<times> edgeSet
    \<Rightarrow> error + doublyConnectedEdgeList \<times> edgeSet" where
  "ghostSegment bearing op segment st =
     (case st of (d, edges) \<Rightarrow>
        let reverseSegment = reverseSequence segment in
        bindE (getXY segment 0) (\<lambda>startXY.
        bindE (getXY reverseSegment 0) (\<lambda>endXY.
          let d1 = ensureVertex endXY (ensureVertex startXY d) in
          if containsStartIntermediateEnd edges segment then Inr (d1, edges)
          else
            bindE (addGhostLine bearing segment reverseSegment op d1) (\<lambda>d2.
              Inr (d2, insertStartIntermediateEnd reverseSegment
                         (insertStartIntermediateEnd segment edges))))))"

definition addGhosts :: "(XY \<Rightarrow> real) \<Rightarrow> XY list list \<Rightarrow> operand \<Rightarrow> XY set \<Rightarrow> doublyConnectedEdgeList
    \<Rightarrow> (error + doublyConnectedEdgeList) option" where
  "addGhosts bearing mls op interactions d =
     (case foldRes (\<lambda>s. forEachNonInteractingSegment s interactions (ghostSegment bearing op)) mls
             (d, fold insertEdge (halfEdges d) {}) of
        None \<Rightarrow> None
      | Some (Inl e) \<Rightarrow> Some (Inl e)
      | Some (Inr (d', edges)) \<Rightarrow> Some (Inr d'))"

definition newDCELFromGeometry :: "(XY \<Rightarrow> real) \<Rightarrow> geometry \<Rightarrow> XY list list \<Rightarrow> operand \<Rightarrow> XY set
    \<Rightarrow> (error + doublyConnectedEdgeList) option" where
  "newDCELFromGeometry bearing g ghosts op interactions =
     (case addGeometry g op interactions emptyDCEL of
        None \<Rightarrow> None
      | Some (Inl e) \<Rightarrow> Some (Inl e)
      | Some (Inr d) \<Rightarrow> addGhosts bearing ghosts op interactions d)"

section \<open>Convex hull\<close>

subsection \<open>float64 arithmetic\<close>

text \<open>
  The result of a float64 operation is the exact result rounded to the nearest float64,
  ties to the even significand. A float64 of exponent \<open>e\<close> is a multiple of
  \<open>2 powi (e - 52)\<close>; the exponent of a real \<open>x\<close> is the \<open>e\<close> with
  \<open>2 powi e \<le> \<bar>x\<bar> < 2 powi (e + 1)\<close>, found by counting up from 0 or down from -1,
  and not below -1022 (the subnormal range). Overflow to infinity and NaN are not
  modelled: the exponent stops at 1023.
\<close>

definition roundHalfEven :: "real \<Rightarrow> int" where
  "roundHalfEven y =
     (let f = \<lfloor>y\<rfloor>; r = y - of_int f in
      if r < 1 / 2 then f else if 1 / 2 < r then f + 1 else if even f then f else f + 1)"

function exponentUp :: "real \<Rightarrow> int \<Rightarrow> int" where
  "exponentUp x e = (if e < 1023 \<and> 2 powi (e + 1) \<le> \<bar>x\<bar> then exponentUp x (e + 1) else e)"
  by pat_completeness auto
termination
  by (relation "measure (\<lambda>(x, e). nat (1023 - e))") auto

declare exponentUp.simps [simp del]

function exponentDown :: "real \<Rightarrow> int \<Rightarrow> int" where
  "exponentDown x e = (if - 1022 < e \<and> \<bar>x\<bar> < 2 powi e then exponentDown x (e - 1) else e)"
  by pat_completeness auto
termination
  by (relation "measure (\<lambda>(x, e). nat (e + 1022))") auto

declare exponentDown.simps [simp del]

definition exponent64 :: "real \<Rightarrow> int" where
  "exponent64 x = (if 1 \<le> \<bar>x\<bar> then exponentUp x 0 else exponentDown x (- 1))"

definition round64 :: "real \<Rightarrow> real" where
  "round64 x =
     (if x = 0 then 0
      else let q = 2 powi (exponent64 x - 52) in of_int (roundHalfEven (x / q)) * q)"

definition sub64 :: "real \<Rightarrow> real \<Rightarrow> real" where
  "sub64 x y = round64 (x - y)"

definition mul64 :: "real \<Rightarrow> real \<Rightarrow> real" where
  "mul64 x y = round64 (x * y)"

subsection \<open>The turn test\<close>

text \<open>
  Modelled from the spec: \<^verbatim>\<open>orientation\<close> and the type of its result are not in the
  sources. The spec gives the result as left turn, right turn or collinear, by the sign
  of the cross product of \<open>b - a\<close> and \<open>c - a\<close>, zero being collinear. The coordinates
  are float64, so the two differences, the two products and their difference are float64
  operations, each rounded.
\<close>

definition crossProduct64 :: "XY \<Rightarrow> XY \<Rightarrow> XY \<Rightarrow> real" where
  "crossProduct64 a b c =
     sub64 (mul64 (sub64 (fst b) (fst a)) (sub64 (snd c) (snd a)))
           (mul64 (sub64 (snd b) (snd a)) (sub64 (fst c) (fst a)))"

datatype threePointOrientation = rightTurn | collinear | leftTurn

definition orientation :: "XY \<Rightarrow> XY \<Rightarrow> XY \<Rightarrow> threePointOrientation" where
  "orientation a b c =
     (let cp = crossProduct64 a b c in
      if 0 < cp then leftTurn else if cp < 0 then rightTurn else collinear)"

subsection \<open>monotoneChain and convexHull\<close>

text \<open>
  The turn test is the one function of the hull that is not in the sources, so the scan
  takes it as the parameter \<open>orient\<close>; the program is the instance
  \<open>orient = orientation\<close>.

  The inner loop of both scans of \<^verbatim>\<open>monotoneChain\<close>: it drops the last point of the
  slice as long as the last two points and the new one do not make a left turn.
\<close>

type_synonym turnTest = "XY \<Rightarrow> XY \<Rightarrow> XY \<Rightarrow> threePointOrientation"

function hullPop :: "turnTest \<Rightarrow> XY list \<Rightarrow> XY \<Rightarrow> XY list" where
  "hullPop orient st p =
     (if 2 \<le> length st \<and> orient (st ! (length st - 2)) (st ! (length st - 1)) p \<noteq> leftTurn
      then hullPop orient (butlast st) p
      else st)"
  by pat_completeness auto
termination
  by (relation "measure (\<lambda>(orient, st, p). length st)") auto

declare hullPop.simps [simp del]

definition hullPush :: "turnTest \<Rightarrow> XY list \<Rightarrow> XY \<Rightarrow> XY list" where
  "hullPush orient st p = hullPop orient st p @ [p]"

text \<open>
  \<^verbatim>\<open>sort.Slice\<close> orders the points by X and then by Y, which is the lexicographic
  order of pairs; two points that it does not order are equal, so the sorted slice is
  the sorted list. \<^verbatim>\<open>upper[1:]\<close> panics when \<^verbatim>\<open>upper\<close> is empty.
\<close>

definition monotoneChain :: "turnTest \<Rightarrow> XY list \<Rightarrow> error + XY list" where
  "monotoneChain orient pts =
     (let s = sort pts;
          lower = foldl (hullPush orient) [] s;
          upper = foldl (hullPush orient) [] (rev s)
      in if upper = [] then Inl SliceOutOfRange else Inr (lower @ tl upper))"

text \<open>
  Modelled from the spec: \<^verbatim>\<open>IsEmpty\<close>, \<^verbatim>\<open>Force2D\<close>, \<^verbatim>\<open>NewPointFromXY\<close> and
  \<^verbatim>\<open>asLineString\<close> are not in the sources. A geometry is empty when it has no
  element that is not empty; geometries are two-dimensional here, so forcing to 2D
  changes nothing; the line string of a collinear hull has the two extreme points.
\<close>

primrec isEmpty :: "geometry \<Rightarrow> bool" where
  "isEmpty (Point pt) = (pt = None)"
| "isEmpty (LineString s) = (s = [])"
| "isEmpty (Polygon rings) = (rings = [])"
| "isEmpty (MultiPoint mp) = list_all (\<lambda>pt. pt = None) mp"
| "isEmpty (MultiLineString mls) = list_all (\<lambda>s. s = []) mls"
| "isEmpty (MultiPolygon polys) = list_all (\<lambda>rings. rings = []) polys"
| "isEmpty (GeometryCollection gs) = list_all (\<lambda>e. e) (map isEmpty gs)"

definition exteriorRing :: "XY list list \<Rightarrow> XY list" where
  "exteriorRing rings = (case rings of [] \<Rightarrow> [] | ext # holes \<Rightarrow> ext)"

definition pointXY :: "XY option \<Rightarrow> XY list" where
  "pointXY pt = (case pt of None \<Rightarrow> [] | Some xy \<Rightarrow> [xy])"

primrec convexHullPointSet :: "geometry \<Rightarrow> XY list" where
  "convexHullPointSet (GeometryCollection gs) = concat (map convexHullPointSet gs)"
| "convexHullPointSet (Point pt) = pointXY pt"
| "convexHullPointSet (LineString s) = s"
| "convexHullPointSet (Polygon rings) = exteriorRing rings"
| "convexHullPointSet (MultiPoint mp) = concat (map pointXY mp)"
| "convexHullPointSet (MultiLineString mls) = concat mls"
| "convexHullPointSet (MultiPolygon polys) = concat (map exteriorRing polys)"

definition hasAtLeast2DistinctPoints :: "XY list \<Rightarrow> bool" where
  "hasAtLeast2DistinctPoints pts =
     (case pts of
        [] \<Rightarrow> False
      | p # rest \<Rightarrow> list_ex (\<lambda>pt. pt \<noteq> p) rest)"

text \<open>For a hull of one point the read of \<^verbatim>\<open>hull[i-1]\<close> is out of range.\<close>

definition isLinearHull :: "XY list \<Rightarrow> error + XY list option" where
  "isLinearHull h =
     (if length h mod 2 = 0 then Inr None
      else
        let i = length h div 2 in
        if i = 0 then Inl IndexOutOfRange
        else if h ! (i - 1) \<noteq> h ! (i + 1) then Inr None
        else Inr (Some (take (i + 1) h)))"

text \<open>
  \<^verbatim>\<open>NewLineString\<close> and \<^verbatim>\<open>NewPolygonFromRings\<close> are not in the sources and the spec
  does not give their checks: whether they accept a ring is a parameter of the model,
  and the two panics of \<^verbatim>\<open>convexHull\<close> are the errors \<open>InvalidRing\<close> and
  \<open>InvalidPolygon\<close>.
\<close>

definition convexHull :: "turnTest \<Rightarrow> (XY list \<Rightarrow> bool) \<Rightarrow> (XY list list \<Rightarrow> bool) \<Rightarrow> geometry
    \<Rightarrow> error + geometry" where
  "convexHull orient ringValid polygonValid g =
     (if isEmpty g then Inr g
      else
        let pts = convexHullPointSet g in
        if \<not> hasAtLeast2DistinctPoints pts then
          (case pts of [] \<Rightarrow> Inl IndexOutOfRange | p # rest \<Rightarrow> Inr (Point (Some p)))
        else
          (case monotoneChain orient pts of
             Inl e \<Rightarrow> Inl e
           | Inr h \<Rightarrow>
               (case isLinearHull h of
                  Inl e \<Rightarrow> Inl e
                | Inr (Some half) \<Rightarrow> Inr (LineString [half ! 0, half ! (length half - 1)])
                | Inr None \<Rightarrow>
                    if \<not> ringValid h then Inl InvalidRing
                    else if \<not> polygonValid [h] then Inl InvalidPolygon
                    else Inr (Polygon [h]))))"

section \<open>Preconditions and auxiliary notions\<close>

text \<open>
  The finder assumes inputs that are noded with respect to each other. The comment on
  \<^verbatim>\<open>adjacents\<close> in \<^verbatim>\<open>findInteractionPoints\<close> counts linear elements that overlap
  among them, so two segments of noded inputs are either the same segment, in either
  direction, or meet in common end points only.
\<close>

definition onSegment :: "XY \<Rightarrow> XY \<Rightarrow> XY \<Rightarrow> bool" where
  "onSegment p a b =
     (\<exists>t. 0 \<le> t \<and> t \<le> 1 \<and> p = (fst a + t * (fst b - fst a), snd a + t * (snd b - snd a)))"

definition segmentsOf :: "XY list \<Rightarrow> (XY \<times> XY) list" where
  "segmentsOf s = zip s (tl s)"

definition mutuallyNoded :: "XY list \<Rightarrow> XY list \<Rightarrow> bool" where
  "mutuallyNoded l1 l2 =
     (\<forall>(a, b) \<in> set (segmentsOf l1). \<forall>(c, d) \<in> set (segmentsOf l2).
        {a, b} = {c, d}
        \<or> (\<forall>p. onSegment p a b \<and> onSegment p c d \<longrightarrow> p \<in> {a, b} \<and> p \<in> {c, d}))"


text \<open>
  A coordinate is settled with a pair when it is already an interaction point or the
  pair is the one recorded for it in \<^verbatim>\<open>adjacents\<close>.
\<close>

definition settled :: "XY \<Rightarrow> xyPair \<Rightarrow> finderState \<Rightarrow> bool" where
  "settled xy q st = (xy \<in> snd st \<or> fst st xy = Some q)"


section \<open>Sequences of additions and their invariants\<close>

text \<open>
  A DCEL is built by \<^verbatim>\<open>newDCELFromGeometry\<close> and then grown by further calls of
  \<^verbatim>\<open>addGeometry\<close> and \<^verbatim>\<open>addGhosts\<close> with the same interaction set, for
  either operand. A sequence of such calls is a list of additions, run from the empty
  DCEL.
\<close>

datatype addition = AddGeometry geometry operand | AddGhosts "XY list list" operand

definition applyAddition :: "(XY \<Rightarrow> real) \<Rightarrow> XY set \<Rightarrow> addition \<Rightarrow> doublyConnectedEdgeList
    \<Rightarrow> (error + doublyConnectedEdgeList) option" where
  "applyAddition bearing interactions a d =
     (case a of
        AddGeometry g op \<Rightarrow> addGeometry g op interactions d
      | AddGhosts mls op \<Rightarrow> addGhosts bearing mls op interactions d)"

definition buildDCEL :: "(XY \<Rightarrow> real) \<Rightarrow> XY set \<Rightarrow> addition list
    \<Rightarrow> (error + doublyConnectedEdgeList) option" where
  "buildDCEL bearing interactions additions =
     foldRes (applyAddition bearing interactions) additions emptyDCEL"

text \<open>
  Every half-edge has a twin in \<^verbatim>\<open>halfEdges\<close>, the twin of the twin is the half-edge
  itself, and the coordinates of the twin are those of the half-edge reversed.
\<close>

definition twinsPaired :: "halfEdgeRecord list \<Rightarrow> bool" where
  "twinsPaired hs =
     (\<forall>i < length hs.
        case twin (hs ! i) of
          None \<Rightarrow> False
        | Some j \<Rightarrow> j < length hs \<and> twin (hs ! j) = Some i \<and> seq (hs ! j) = rev (seq (hs ! i)))"

text \<open>
  The location flags of the vertices, and the boundary flag of the vertex at a
  coordinate for an operand (false when there is no vertex there).
\<close>

definition locationsOf :: "doublyConnectedEdgeList \<Rightarrow> XY \<Rightarrow> (operand \<Rightarrow> location) option" where
  "locationsOf d xy = map_option locations (vertices d xy)"

definition boundaryAt :: "(XY \<rightharpoonup> vertexRecord) \<Rightarrow> XY \<Rightarrow> operand \<Rightarrow> bool" where
  "boundaryAt verts p op = (case verts p of None \<Rightarrow> False | Some v \<Rightarrow> boundary (locations v op))"

text \<open>
  The coordinates a geometry visits in an interior role: the coordinates of its points,
  and the coordinates of its line strings that are interaction points and are not
  visited as an end point of an open line string. \<open>interiorCoordsOf\<close> collects them
  over the geometries added for one operand.
\<close>

definition lineInteriorCoords :: "XY set \<Rightarrow> XY list \<Rightarrow> XY set" where
  "lineInteriorCoords interactions s =
     set (map (\<lambda>j. s ! j)
       (filter (\<lambda>j. s ! j \<in> interactions \<and> \<not> ((j = 0 \<or> j = length s - 1) \<and> \<not> isClosed s))
          [0 ..< length s]))"

primrec interiorCoords :: "geometry \<Rightarrow> XY set \<Rightarrow> XY set" where
  "interiorCoords (Point pt) = (\<lambda>interactions. set_option pt)"
| "interiorCoords (MultiPoint mp) = (\<lambda>interactions. \<Union> (set (map set_option mp)))"
| "interiorCoords (LineString s) = (\<lambda>interactions. lineInteriorCoords interactions s)"
| "interiorCoords (MultiLineString mls) =
     (\<lambda>interactions. \<Union> (set (map (lineInteriorCoords interactions) mls)))"
| "interiorCoords (Polygon poly) = (\<lambda>interactions. {})"
| "interiorCoords (MultiPolygon mp) = (\<lambda>interactions. {})"
| "interiorCoords (GeometryCollection gc) =
     (\<lambda>interactions. \<Union> (set (map (\<lambda>g. interiorCoords g interactions) gc)))"

definition interiorCoordsOf :: "XY set \<Rightarrow> addition list \<Rightarrow> operand \<Rightarrow> XY set" where
  "interiorCoordsOf interactions additions k =
     \<Union> (set (map (\<lambda>a. case a of
                           AddGeometry g op \<Rightarrow> (if op = k then interiorCoords g interactions else {})
                         | AddGhosts mls op \<Rightarrow> {}) additions))"

text \<open>
  Both flags of a vertex are set for an operand only at the coordinates of a given set.
\<close>

definition bothWithin :: "(operand \<Rightarrow> XY set) \<Rightarrow> (XY \<rightharpoonup> vertexRecord) \<Rightarrow> bool" where
  "bothWithin I verts =
     (\<forall>xy v k. verts xy = Some v \<and> boundary (locations v k) \<and> interior (locations v k)
        \<longrightarrow> xy \<in> I k)"

text \<open>
  The linear elements the finder walks for a geometry, in the order it walks them, and
  the coordinates of its points. The occurrences of a coordinate \<open>c\<close> in a line string
  are the indices \<open>i\<close> of the loop of \<^verbatim>\<open>addLineStringInteractions\<close> (\<open>1 \<le> i\<close>,
  \<open>i + 1 < n\<close>) with \<open>c\<close> at \<open>i\<close>; each is given by the pair of its neighbours
  \<^verbatim>\<open>prev\<close>, \<^verbatim>\<open>next\<close>. \<open>occurrencesIn\<close> lists them over a list of geometries, in
  the order the finder meets them.
\<close>

primrec linearElements :: "geometry \<Rightarrow> XY list list" where
  "linearElements (Point pt) = []"
| "linearElements (MultiPoint mp) = []"
| "linearElements (LineString s) = [s]"
| "linearElements (MultiLineString mls) = mls"
| "linearElements (Polygon rings) = polygonBoundary rings"
| "linearElements (MultiPolygon polys) = multiPolygonBoundary polys"
| "linearElements (GeometryCollection gs) = []"

primrec pointCoords :: "geometry \<Rightarrow> XY set" where
  "pointCoords (Point pt) = set_option pt"
| "pointCoords (MultiPoint mp) = \<Union> (set (map set_option mp))"
| "pointCoords (LineString s) = {}"
| "pointCoords (MultiLineString mls) = {}"
| "pointCoords (Polygon rings) = {}"
| "pointCoords (MultiPolygon polys) = {}"
| "pointCoords (GeometryCollection gs) = {}"

definition occurrences :: "XY \<Rightarrow> XY list \<Rightarrow> (XY \<times> XY) list" where
  "occurrences c s =
     map (\<lambda>i. (s ! (i - 1), s ! (i + 1))) (filter (\<lambda>i. s ! i = c) [1 ..< length s - 1])"

definition occurrencesIn :: "XY \<Rightarrow> geometry list \<Rightarrow> (XY \<times> XY) list" where
  "occurrencesIn c gs = concat (map (occurrences c) (concat (map linearElements gs)))"

definition endpointIn :: "XY \<Rightarrow> geometry list \<Rightarrow> bool" where
  "endpointIn c gs =
     (\<exists>s \<in> set (concat (map linearElements gs)). s \<noteq> [] \<and> (hd s = c \<or> last s = c))"

text \<open>
  What a list of occurrences of one coordinate does to the pair recorded for it and to
  its membership in the interactions, starting from the recorded pair \<open>r\<close>.
\<close>

fun recorded :: "xyPair option \<Rightarrow> (XY \<times> XY) list \<Rightarrow> xyPair option" where
  "recorded r [] = r"
| "recorded r ((p, n) # os) =
     (if p = n then recorded r os
      else case r of None \<Rightarrow> recorded (Some (canonicalPair p n)) os | Some e \<Rightarrow> recorded r os)"

fun hits :: "xyPair option \<Rightarrow> (XY \<times> XY) list \<Rightarrow> bool" where
  "hits r [] = False"
| "hits r ((p, n) # os) =
     (if p = n then True
      else case r of
             None \<Rightarrow> hits (Some (canonicalPair p n)) os
           | Some e \<Rightarrow> e \<noteq> canonicalPair p n \<or> hits r os)"

text \<open>
  The coordinates a geometry visits in a boundary role: the vertices of the rings of its
  polygons that are interaction points, and the first and the last position of its open
  line strings where they are interaction points. \<open>boundaryCoordsOf\<close> collects them
  over the geometries added for one operand.
\<close>

definition lineBoundaryCoords :: "XY set \<Rightarrow> XY list \<Rightarrow> XY set" where
  "lineBoundaryCoords interactions s =
     set (map (\<lambda>j. s ! j)
       (filter (\<lambda>j. s ! j \<in> interactions \<and> (j = 0 \<or> j = length s - 1) \<and> \<not> isClosed s)
          [0 ..< length s]))"

definition ringCoords :: "XY set \<Rightarrow> XY list list \<Rightarrow> XY set" where
  "ringCoords interactions poly = \<Union> (set (map set poly)) \<inter> interactions"

primrec boundaryCoords :: "geometry \<Rightarrow> XY set \<Rightarrow> XY set" where
  "boundaryCoords (Point pt) = (\<lambda>interactions. {})"
| "boundaryCoords (MultiPoint mp) = (\<lambda>interactions. {})"
| "boundaryCoords (LineString s) = (\<lambda>interactions. lineBoundaryCoords interactions s)"
| "boundaryCoords (MultiLineString mls) =
     (\<lambda>interactions. \<Union> (set (map (lineBoundaryCoords interactions) mls)))"
| "boundaryCoords (Polygon poly) = (\<lambda>interactions. ringCoords interactions poly)"
| "boundaryCoords (MultiPolygon mp) =
     (\<lambda>interactions. \<Union> (set (map (ringCoords interactions) mp)))"
| "boundaryCoords (GeometryCollection gc) =
     (\<lambda>interactions. \<Union> (set (map (\<lambda>g. boundaryCoords g interactions) gc)))"

definition boundaryCoordsOf :: "XY set \<Rightarrow> addition list \<Rightarrow> operand \<Rightarrow> XY set" where
  "boundaryCoordsOf interactions additions k =
     \<Union> (set (map (\<lambda>a. case a of
                           AddGeometry g op \<Rightarrow> (if op = k then boundaryCoords g interactions else {})
                         | AddGhosts mls op \<Rightarrow> {}) additions))"

text \<open>The boundary flag of a vertex is set for an operand only at the coordinates of a given set.\<close>

definition boundaryWithin :: "(operand \<Rightarrow> XY set) \<Rightarrow> (XY \<rightharpoonup> vertexRecord) \<Rightarrow> bool" where
  "boundaryWithin B verts =
     (\<forall>xy v k. verts xy = Some v \<and> boundary (locations v k) \<longrightarrow> xy \<in> B k)"

text \<open>
  The turn test without rounding: the sign of the cross product computed in the reals. A
  turn test is exact on a set of points when it agrees with it on every three of them.
\<close>

definition crossProduct :: "XY \<Rightarrow> XY \<Rightarrow> XY \<Rightarrow> real" where
  "crossProduct a b c = (fst b - fst a) * (snd c - snd a) - (snd b - snd a) * (fst c - fst a)"

definition exactOrientation :: turnTest where
  "exactOrientation a b c =
     (if 0 < crossProduct a b c then leftTurn
      else if crossProduct a b c < 0 then rightTurn
      else collinear)"

definition exactOn :: "turnTest \<Rightarrow> XY set \<Rightarrow> bool" where
  "exactOn orient S = (\<forall>a \<in> S. \<forall>b \<in> S. \<forall>c \<in> S. orient a b c = exactOrientation a b c)"

text \<open>
  For the proofs about \<^verbatim>\<open>monotoneChain\<close> with the exact turn test the slice of a
  scan is kept with its last point first: \<open>popR\<close> is the inner loop and \<open>scanR\<close> a
  whole scan on that representation. A chain is convex when every three consecutive points make a left
  turn, and a point is above a chain when it lies between the end points of one of its
  edges, on that edge or to its left.
\<close>

fun popR :: "XY list \<Rightarrow> XY \<Rightarrow> XY list" where
  "popR (q # p # rest) r =
     (if exactOrientation p q r \<noteq> leftTurn then popR (p # rest) r else q # p # rest)"
| "popR st r = st"

definition scanR :: "XY list \<Rightarrow> XY list" where
  "scanR xs = foldl (\<lambda>st r. r # popR st r) [] xs"

fun convexR :: "XY list \<Rightarrow> bool" where
  "convexR (q # p # u # rest) = (0 < crossProduct u p q \<and> convexR (p # u # rest))"
| "convexR _ = True"

fun aboveR :: "XY list \<Rightarrow> XY \<Rightarrow> bool" where
  "aboveR (q # p # rest) w =
     ((p \<le> w \<and> w \<le> q \<and> 0 \<le> crossProduct p q w) \<or> aboveR (p # rest) w)"
| "aboveR _ w = False"

definition hullInv :: "XY list \<Rightarrow> XY set \<Rightarrow> bool" where
  "hullInv R W =
     (2 \<le> length R \<and> sorted_wrt (>) R \<and> convexR R \<and> (\<forall>w \<in> W. aboveR R w) \<and> set R \<subseteq> W
      \<and> (\<forall>w \<in> W. w \<le> hd R) \<and> (\<forall>w \<in> W. last R \<le> w))"

definition degenerate :: "XY list \<Rightarrow> XY set \<Rightarrow> bool" where
  "degenerate R W = (\<exists>a. (R = [a] \<or> R = [a, a]) \<and> W = {a})"

definition neg :: "XY \<Rightarrow> XY" where
  "neg p = (- fst p, - snd p)"

text \<open>The slice \<^verbatim>\<open>monotoneChain\<close> returns for a sorted input.\<close>

definition chainOf :: "XY list \<Rightarrow> XY list" where
  "chainOf X = rev (scanR X) @ tl (rev (scanR (rev X)))"

section \<open>Termination of the segment loop\<close>

lemma findEnd_found:
  assumes "i < length s - 1" "last s \<in> interactions"
  shows "i < findEnd s interactions i \<and> findEnd s interactions i < length s
         \<and> s ! findEnd s interactions i \<in> interactions"
proof -
  have n: "s \<noteq> []" "length s - 1 \<in> set [i + 1 ..< length s]" using assms by auto
  have "s ! (length s - 1) \<in> interactions" using assms n by (simp add: last_conv_nth)
  then have "List.find (\<lambda>j. s ! j \<in> interactions) [i + 1 ..< length s] \<noteq> None"
    using n(2) by (auto simp: find_None_iff)
  then obtain j where j: "List.find (\<lambda>j. s ! j \<in> interactions) [i + 1 ..< length s] = Some j"
    by auto
  then have "j \<in> set [i + 1 ..< length s] \<and> s ! j \<in> interactions"
    by (auto simp: find_Some_iff)
  then show ?thesis using j by (simp add: findEnd_def)
qed


lemma segmentLoop_total:
  assumes "last s \<in> interactions"
  shows "segmentLoop s interactions fn i st \<noteq> None"
proof (induction "length s - i" arbitrary: i st rule: less_induct)
  case less
  show ?case
  proof (cases "i < length s - 1")
    case False
    then show ?thesis by (subst segmentLoop.simps) simp
  next
    case True
    note fe = findEnd_found[OF True assms]
    have sl: "slice s i (findEnd s interactions i + 1) = Inr (take (findEnd s interactions i + 1 - i) (drop i s))"
      using fe by (simp add: slice_def)
    show ?thesis
    proof (cases "fn (take (findEnd s interactions i + 1 - i) (drop i s)) st")
      case (Inl e)
      then show ?thesis using True sl by (subst segmentLoop.simps) simp
    next
      case (Inr st')
      have "segmentLoop s interactions fn (findEnd s interactions i) st' \<noteq> None"
        using less[of "findEnd s interactions i" st'] fe by auto
      then show ?thesis using True sl Inr by (subst segmentLoop.simps) simp
    qed
  qed
qed

lemma segmentLoop_collect:
  assumes "last s \<in> interactions"
  shows "i < length s \<Longrightarrow>
     \<exists>segs. segmentLoop s interactions (\<lambda>seg acc. Inr (acc @ [seg])) i acc = Some (Inr (acc @ segs))
       \<and> concat (map butlast segs) @ [last s] = drop i s
       \<and> (\<forall>seg \<in> set segs. 2 \<le> length seg)
       \<and> (\<forall>k. Suc k < length segs \<longrightarrow> last (segs ! k) = hd (segs ! Suc k))
       \<and> (segs \<noteq> [] \<longrightarrow> hd (hd segs) = s ! i \<and> last (last segs) = last s)
       \<and> (i < length s - 1 \<longrightarrow> segs \<noteq> [])"
proof (induction "length s - i" arbitrary: i acc rule: less_induct)
  case less
  let ?fn = "\<lambda>seg acc. Inr (acc @ [seg]) :: error + XY list list"
  show ?case
  proof (cases "i < length s - 1")
    case False
    then have i: "i = length s - 1" and ne: "s \<noteq> []" using less.prems by auto
    have "segmentLoop s interactions ?fn i acc = Some (Inr (acc @ []))"
      using False by (subst segmentLoop.simps) simp
    moreover have "[last s] = drop i s"
      using ne i by (metis append_butlast_last_id append_eq_conv_conj length_butlast)
    ultimately show ?thesis using False by (intro exI[of _ "[]"]) simp
  next
    case True
    define e where "e = findEnd s interactions i"
    note fe0 = findEnd_found[OF True assms, folded e_def]
    have fe: "i < e" "e < length s" "s ! e \<in> interactions" using fe0 by auto
    define seg where "seg = take (e + 1 - i) (drop i s)"
    have sl: "slice s i (e + 1) = Inr seg"
      using fe by (simp add: slice_def seg_def)
    have m: "length s - e < length s - i" using fe less.prems by linarith
    have el: "e < length s" using fe by simp
    from less.hyps[OF m el, of "acc @ [seg]"]
    obtain rest where rest:
      "segmentLoop s interactions ?fn e (acc @ [seg]) = Some (Inr ((acc @ [seg]) @ rest))"
      "concat (map butlast rest) @ [last s] = drop e s"
      "\<forall>sg \<in> set rest. 2 \<le> length sg"
      "\<forall>k. Suc k < length rest \<longrightarrow> last (rest ! k) = hd (rest ! Suc k)"
      "rest \<noteq> [] \<longrightarrow> hd (hd rest) = s ! e \<and> last (last rest) = last s"
      "e < length s - 1 \<longrightarrow> rest \<noteq> []"
      by blast
    have run: "segmentLoop s interactions ?fn i acc = Some (Inr (acc @ seg # rest))"
      using True sl rest(1) by (subst segmentLoop.simps) (simp add: e_def[symmetric])
    have len: "length seg = e + 1 - i" using fe by (auto simp: seg_def)
    have segne: "seg \<noteq> []" using len fe by auto
    have "Suc e - i \<le> length (drop i s)" using fe by (simp add: Suc_leI diff_le_mono)
    then have bl: "butlast seg = take (e - i) (drop i s)"
      using fe by (simp add: seg_def butlast_take Suc_diff_le)
    have "drop e s = drop (e - i) (drop i s)" using fe by simp
    then have cov: "concat (map butlast (seg # rest)) @ [last s] = drop i s"
      using rest(2) bl by (simp del: drop_drop)
    have hdseg: "hd seg = s ! i" using fe less.prems by (simp add: seg_def hd_conv_nth hd_drop_conv_nth)
    have lastseg: "last seg = s ! e"
      using fe segne len by (simp add: last_conv_nth seg_def)
    have e_last: "rest = [] \<Longrightarrow> s ! e = last s"
    proof -
      assume "rest = []"
      then have "e = length s - 1" using rest(6) fe by auto
      moreover have "s \<noteq> []" using fe by auto
      ultimately show ?thesis by (simp add: last_conv_nth)
    qed
    have chain: "\<forall>k. Suc k < length (seg # rest) \<longrightarrow> last ((seg # rest) ! k) = hd ((seg # rest) ! Suc k)"
    proof (intro allI impI)
      fix k assume k: "Suc k < length (seg # rest)"
      show "last ((seg # rest) ! k) = hd ((seg # rest) ! Suc k)"
      proof (cases k)
        case 0
        then have "rest \<noteq> []" using k by auto
        then show ?thesis using 0 rest(5) lastseg by (simp add: hd_conv_nth)
      next
        case (Suc k')
        then show ?thesis using k rest(4) by simp
      qed
    qed
    have ends: "hd (hd (seg # rest)) = s ! i \<and> last (last (seg # rest)) = last s"
      using hdseg lastseg rest(5) e_last by (cases "rest = []") auto
    have lens: "\<forall>sg \<in> set (seg # rest). 2 \<le> length sg" using rest(3) len fe by auto
    show ?thesis
      apply (rule exI[of _ "seg # rest"])
      using run cov lens chain ends by blast
  qed
qed

text \<open>
  Claim C10. For a sequence of at least two coordinates whose last coordinate is an
  interaction point, \<^verbatim>\<open>forEachNonInteractingSegment\<close> returns whatever the callback is:
  every inner scan from an index \<open>i\<close> before the last finds an end index strictly
  behind \<open>i\<close> and inside the sequence. With a callback that records the segments it
  is given, the segments start at the first coordinate, end at the last, each has at
  least two coordinates and starts where the one before it ended, and together they are
  the sequence.
\<close>

theorem forEachNonInteractingSegment_terminates:
  assumes "2 \<le> length s" and "last s \<in> interactions"
  shows "(\<forall>i. i < length s - 1 \<longrightarrow>
            i < findEnd s interactions i \<and> findEnd s interactions i < length s)
       \<and> forEachNonInteractingSegment s interactions fn st \<noteq> None
       \<and> (\<exists>segs. forEachNonInteractingSegment s interactions (\<lambda>seg acc. Inr (acc @ [seg])) []
                    = Some (Inr segs)
            \<and> segs \<noteq> []
            \<and> hd (hd segs) = hd s \<and> last (last segs) = last s
            \<and> (\<forall>k. Suc k < length segs \<longrightarrow> last (segs ! k) = hd (segs ! Suc k))
            \<and> (\<forall>seg \<in> set segs. 2 \<le> length seg)
            \<and> concat (map butlast segs) @ [last s] = s)"
proof (intro conjI)
  show "\<forall>i. i < length s - 1 \<longrightarrow>
            i < findEnd s interactions i \<and> findEnd s interactions i < length s"
    using findEnd_found[OF _ assms(2)] by blast
  show "forEachNonInteractingSegment s interactions fn st \<noteq> None"
    unfolding forEachNonInteractingSegment_def by (rule segmentLoop_total[OF assms(2)])
  have pos: "0 < length s" "0 < length s - 1" using assms(1) by auto
  have "s \<noteq> []" using pos(1) by auto
  then have hd0: "s ! 0 = hd s" by (simp add: hd_conv_nth)
  from segmentLoop_collect[OF assms(2) pos(1), of "[]"] pos(2) hd0
  obtain segs where segs:
    "segmentLoop s interactions (\<lambda>seg acc. Inr (acc @ [seg])) 0 [] = Some (Inr segs)"
    "concat (map butlast segs) @ [last s] = s"
    "\<forall>seg \<in> set segs. 2 \<le> length seg"
    "\<forall>k. Suc k < length segs \<longrightarrow> last (segs ! k) = hd (segs ! Suc k)"
    "hd (hd segs) = hd s" "last (last segs) = last s"
    "segs \<noteq> []"
    by auto
  show "\<exists>segs. forEachNonInteractingSegment s interactions (\<lambda>seg acc. Inr (acc @ [seg])) []
                    = Some (Inr segs)
            \<and> segs \<noteq> []
            \<and> hd (hd segs) = hd s \<and> last (last segs) = last s
            \<and> (\<forall>k. Suc k < length segs \<longrightarrow> last (segs ! k) = hd (segs ! Suc k))
            \<and> (\<forall>seg \<in> set segs. 2 \<le> length seg)
            \<and> concat (map butlast segs) @ [last s] = s"
    apply (rule exI[of _ segs])
    using segs by (simp add: forEachNonInteractingSegment_def)
qed


theorem forEachNonInteractingSegment_terminates_witness:
  "2 \<le> length [(0, 0), (1, 0), (2, 0), (3::real, 0::real)]
   \<and> last [(0, 0), (1, 0), (2, 0), (3::real, 0::real)] \<in> {(2, 0), (3, 0)}
   \<and> forEachNonInteractingSegment [(0, 0), (1, 0), (2, 0), (3, 0)] {(2, 0), (3, 0)}
        (\<lambda>seg acc. Inr (acc @ [seg])) [] \<noteq> None"
  using forEachNonInteractingSegment_terminates
    [of "[(0, 0), (1, 0), (2, 0), (3, 0)]" "{(2, 0), (3, 0)}" "\<lambda>seg acc. Inr (acc @ [seg])" "[]"]
  by simp


section \<open>Geometry collections\<close>

lemma findLoop_collection:
  "GeometryCollection gc \<in> set gs \<Longrightarrow> findLoop gs st = Inl UnsupportedGeometry"
proof (induction gs arbitrary: st)
  case Nil
  then show ?case by simp
next
  case (Cons g gs)
  show ?case
  proof (cases g)
    case (GeometryCollection x)
    then show ?thesis by simp
  qed (use Cons in \<open>cases st; auto\<close>)+
qed

lemma foldRes_map: "foldRes f (map g xs) st = foldRes (\<lambda>x. f (g x)) xs st"
  by (induction xs arbitrary: st) (auto split: option.splits sum.splits)


text \<open>
  Claim C9. \<^verbatim>\<open>findInteractionPoints\<close> panics (geometry collection not supported) when
  its input list contains a GeometryCollection, whereas \<^verbatim>\<open>addGeometry\<close> on a
  GeometryCollection runs \<^verbatim>\<open>addGeometry\<close> on each child in turn, which is
  \<^verbatim>\<open>addGeometryCollection\<close>.
\<close>

theorem collection_rejected_by_finder_accepted_by_builder:
  "(GeometryCollection gc \<in> set gs \<longrightarrow> findInteractionPoints gs = Inl UnsupportedGeometry)
   \<and> addGeometry (GeometryCollection gc) op interactions d
       = foldRes (\<lambda>g. addGeometry g op interactions) gc d
   \<and> addGeometry (GeometryCollection gc) op interactions d
       = addGeometryCollection gc op interactions d"
  by (simp add: findInteractionPoints_def findLoop_collection foldRes_map addGeometryCollection_def)


theorem collection_rejected_by_finder_accepted_by_builder_witness:
  "GeometryCollection [Point (Some (1, 2))] \<in> set [Point None, GeometryCollection [Point (Some (1, 2))]]
   \<and> findInteractionPoints [Point None, GeometryCollection [Point (Some (1, 2))]] = Inl UnsupportedGeometry
   \<and> addGeometry (GeometryCollection [Point (Some (1, 2))]) OperandA {} emptyDCEL
       = addGeometry (Point (Some (1, 2))) OperandA {} emptyDCEL"
  using collection_rejected_by_finder_accepted_by_builder
    [of "[Point (Some (1, 2))]" "[Point None, GeometryCollection [Point (Some (1, 2))]]" OperandA "{}" emptyDCEL]
  by simp

section \<open>The interaction finder\<close>

lemma xyLess_total: "xyLess a b \<or> a = b \<or> xyLess b a"
  by (auto simp: xyLess_def prod_eq_iff)

lemma xyLess_asym: "xyLess a b \<Longrightarrow> \<not> xyLess b a"
  by (auto simp: xyLess_def split: if_splits)

lemma canonicalPair_eq_iff: "canonicalPair a b = canonicalPair c d \<longleftrightarrow> {a, b} = {c, d}"
  using xyLess_total[of a b] xyLess_asym[of a b] xyLess_asym[of b a]
  by (auto simp: canonicalPair_def doubleton_eq_iff split: if_splits)


lemma hits_cons: "hits r (x # os) = (hits r [x] \<or> hits (recorded r [x]) os)"
  by (cases x; cases r) auto

lemma recorded_cons: "recorded r (x # os) = recorded (recorded r [x]) os"
  by (cases x; cases r) auto

lemma hits_append: "hits r (a @ b) = (hits r a \<or> hits (recorded r a) b)"
proof (induction a arbitrary: r)
  case Nil
  then show ?case by simp
next
  case (Cons x a)
  have "hits r ((x # a) @ b) = (hits r [x] \<or> hits (recorded r [x]) (a @ b))"
    using hits_cons[of r x "a @ b"] by simp
  also have "\<dots> = (hits r [x] \<or> hits (recorded r [x]) a \<or> hits (recorded (recorded r [x]) a) b)"
    using Cons.IH by simp
  also have "\<dots> = (hits r (x # a) \<or> hits (recorded r (x # a)) b)"
    using hits_cons[of r x a] recorded_cons[of r x a] by auto
  finally show ?case .
qed

lemma recorded_append: "recorded r (a @ b) = recorded (recorded r a) b"
proof (induction a arbitrary: r)
  case Nil
  then show ?case by simp
next
  case (Cons x a)
  have "recorded r ((x # a) @ b) = recorded (recorded r [x]) (a @ b)"
    using recorded_cons[of r x "a @ b"] by simp
  also have "\<dots> = recorded (recorded (recorded r [x]) a) b" using Cons.IH by simp
  also have "\<dots> = recorded (recorded r (x # a)) b" using recorded_cons[of r x a] by simp
  finally show ?case .
qed

lemma step_view:
  "fst (lineStringStep prv cur nxt st) c
     = (if cur = c then recorded (fst st c) [(prv, nxt)] else fst st c)"
  "c \<in> snd (lineStringStep prv cur nxt st)
     \<longleftrightarrow> c \<in> snd st \<or> (cur = c \<and> hits (fst st c) [(prv, nxt)])"
  by (cases st; auto simp: lineStringStep_def Let_def split: option.splits)+

lemma fold_view_recorded:
  "fst (fold (lineStringIndexStep s) js st) c
     = recorded (fst st c) (map (\<lambda>i. (s ! (i - 1), s ! (i + 1))) (filter (\<lambda>i. s ! i = c) js))"
proof (induction js arbitrary: st)
  case Nil
  show ?case by simp
next
  case (Cons j js)
  let ?st = "lineStringIndexStep s j st"
  let ?o = "map (\<lambda>i. (s ! (i - 1), s ! (i + 1))) (filter (\<lambda>i. s ! i = c) js)"
  have f: "fst ?st c = (if s ! j = c then recorded (fst st c) [(s ! (j - 1), s ! (j + 1))] else fst st c)"
    unfolding lineStringIndexStep_def by (rule step_view)
  have "fst (fold (lineStringIndexStep s) (j # js) st) c = recorded (fst ?st c) ?o"
    using Cons.IH[of ?st] by simp
  also have "\<dots> = recorded (fst st c)
      (map (\<lambda>i. (s ! (i - 1), s ! (i + 1))) (filter (\<lambda>i. s ! i = c) (j # js)))"
  proof (cases "s ! j = c")
    case True
    then show ?thesis
      using recorded_cons[of "fst st c" "(s ! (j - 1), s ! (j + 1))" ?o]
      by (simp add: f del: recorded.simps)
  next
    case False
    then show ?thesis by (simp add: f del: recorded.simps)
  qed
  finally show ?case .
qed

lemma fold_view_hits:
  "c \<in> snd (fold (lineStringIndexStep s) js st)
     \<longleftrightarrow> c \<in> snd st
         \<or> hits (fst st c) (map (\<lambda>i. (s ! (i - 1), s ! (i + 1))) (filter (\<lambda>i. s ! i = c) js))"
proof (induction js arbitrary: st)
  case Nil
  show ?case by simp
next
  case (Cons j js)
  let ?st = "lineStringIndexStep s j st"
  let ?o = "map (\<lambda>i. (s ! (i - 1), s ! (i + 1))) (filter (\<lambda>i. s ! i = c) js)"
  have f: "fst ?st c = (if s ! j = c then recorded (fst st c) [(s ! (j - 1), s ! (j + 1))] else fst st c)"
    and h: "c \<in> snd ?st \<longleftrightarrow> c \<in> snd st \<or> (s ! j = c \<and> hits (fst st c) [(s ! (j - 1), s ! (j + 1))])"
    unfolding lineStringIndexStep_def by (rule step_view)+
  have "c \<in> snd (fold (lineStringIndexStep s) (j # js) st)
      \<longleftrightarrow> c \<in> snd ?st \<or> hits (fst ?st c) ?o"
    using Cons.IH[of ?st] by simp
  also have "\<dots> \<longleftrightarrow> c \<in> snd st
      \<or> hits (fst st c) (map (\<lambda>i. (s ! (i - 1), s ! (i + 1))) (filter (\<lambda>i. s ! i = c) (j # js)))"
  proof (cases "s ! j = c")
    case True
    then show ?thesis
      using hits_cons[of "fst st c" "(s ! (j - 1), s ! (j + 1))" ?o]
      by (auto simp add: f h simp del: recorded.simps hits.simps)
  next
    case False
    then show ?thesis by (simp add: f h del: recorded.simps hits.simps)
  qed
  finally show ?case .
qed

lemmas fold_view = fold_view_recorded fold_view_hits

lemma addLineString_view:
  "fst (addLineStringInteractions s st) c = recorded (fst st c) (occurrences c s)"
  "c \<in> snd (addLineStringInteractions s st)
     \<longleftrightarrow> c \<in> snd st \<or> (s \<noteq> [] \<and> (hd s = c \<or> last s = c)) \<or> hits (fst st c) (occurrences c s)"
proof -
  obtain adj ints where st: "st = (adj, ints)" by (cases st)
  have e: "c \<in> addEndpoints s ints \<longleftrightarrow> c \<in> ints \<or> (s \<noteq> [] \<and> (hd s = c \<or> last s = c))"
    by (auto simp: addEndpoints_def split: list.splits)
  show "fst (addLineStringInteractions s st) c = recorded (fst st c) (occurrences c s)"
    using fold_view(1)[where s = s and js = "[1 ..< length s - 1]" and st = "(adj, addEndpoints s ints)" and c = c]
    by (simp add: st addLineStringInteractions_def occurrences_def)
  show "c \<in> snd (addLineStringInteractions s st)
     \<longleftrightarrow> c \<in> snd st \<or> (s \<noteq> [] \<and> (hd s = c \<or> last s = c)) \<or> hits (fst st c) (occurrences c s)"
    using fold_view(2)[where s = s and js = "[1 ..< length s - 1]" and st = "(adj, addEndpoints s ints)" and c = c] e
    by (simp add: st addLineStringInteractions_def occurrences_def)
qed

lemma addMultiLineString_view_recorded:
  "fst (addMultiLineStringInteractions mls st) c
     = recorded (fst st c) (concat (map (occurrences c) mls))"
proof (induction mls arbitrary: st)
  case Nil
  show ?case by (simp add: addMultiLineStringInteractions_def)
next
  case (Cons s mls)
  have u: "addMultiLineStringInteractions (s # mls) st
      = addMultiLineStringInteractions mls (addLineStringInteractions s st)"
    by (simp add: addMultiLineStringInteractions_def)
  show ?case
    unfolding u using Cons.IH[of "addLineStringInteractions s st"] addLineString_view(1)[where s = s and st = st and c = c]
    by (simp add: recorded_append)
qed

lemma addMultiLineString_view_hits:
  "c \<in> snd (addMultiLineStringInteractions mls st)
     \<longleftrightarrow> c \<in> snd st \<or> (\<exists>s \<in> set mls. s \<noteq> [] \<and> (hd s = c \<or> last s = c))
         \<or> hits (fst st c) (concat (map (occurrences c) mls))"
proof (induction mls arbitrary: st)
  case Nil
  show ?case by (simp add: addMultiLineStringInteractions_def)
next
  case (Cons s mls)
  have u: "addMultiLineStringInteractions (s # mls) st
      = addMultiLineStringInteractions mls (addLineStringInteractions s st)"
    by (simp add: addMultiLineStringInteractions_def)
  show ?case
    unfolding u using Cons.IH[of "addLineStringInteractions s st"] addLineString_view[where s = s and st = st and c = c]
    by (auto simp: hits_append)
qed

lemmas addMultiLineString_view = addMultiLineString_view_recorded addMultiLineString_view_hits

lemma addMultiPoint_view:
  "c \<in> addMultiPointInteractions mp ints \<longleftrightarrow> c \<in> ints \<or> c \<in> \<Union> (set (map set_option mp))"
  unfolding addMultiPointInteractions_def
  by (induction mp arbitrary: ints) (auto simp: addPointInteractions_def split: option.splits)

lemma addGeometry_view:
  assumes "addGeometryInteractions g st = Inr st'"
  shows "fst st' c = recorded (fst st c) (concat (map (occurrences c) (linearElements g)))"
    and "c \<in> snd st' \<longleftrightarrow> c \<in> snd st \<or> c \<in> pointCoords g
           \<or> (\<exists>s \<in> set (linearElements g). s \<noteq> [] \<and> (hd s = c \<or> last s = c))
           \<or> hits (fst st c) (concat (map (occurrences c) (linearElements g)))"
proof -
  obtain adj ints where st: "st = (adj, ints)" by (cases st)
  show "fst st' c = recorded (fst st c) (concat (map (occurrences c) (linearElements g)))"
  proof (cases g)
    case (LineString s)
    then show ?thesis using assms addLineString_view(1)[where s = s and st = st and c = c] by auto
  next
    case (MultiLineString mls)
    then show ?thesis using assms addMultiLineString_view(1)[where mls = mls and st = st and c = c] by auto
  next
    case (Polygon rings)
    then show ?thesis
      using assms addMultiLineString_view(1)[where mls = "polygonBoundary rings" and st = st and c = c] by auto
  next
    case (MultiPolygon polys)
    then show ?thesis
      using assms addMultiLineString_view(1)[where mls = "multiPolygonBoundary polys" and st = st and c = c] by auto
  qed (use assms st in auto)
  show "c \<in> snd st' \<longleftrightarrow> c \<in> snd st \<or> c \<in> pointCoords g
           \<or> (\<exists>s \<in> set (linearElements g). s \<noteq> [] \<and> (hd s = c \<or> last s = c))
           \<or> hits (fst st c) (concat (map (occurrences c) (linearElements g)))"
  proof (cases g)
    case (Point pt)
    then show ?thesis using assms st by (auto simp: addPointInteractions_def split: option.splits)
  next
    case (MultiPoint mp)
    then show ?thesis using assms st addMultiPoint_view[where c = c and mp = mp and ints = ints] by auto
  next
    case (LineString s)
    then show ?thesis using assms addLineString_view(2)[where s = s and st = st and c = c] by auto
  next
    case (MultiLineString mls)
    then show ?thesis using assms addMultiLineString_view(2)[where mls = mls and st = st and c = c] by auto
  next
    case (Polygon rings)
    then show ?thesis
      using assms addMultiLineString_view(2)[where mls = "polygonBoundary rings" and st = st and c = c] by auto
  next
    case (MultiPolygon polys)
    then show ?thesis
      using assms addMultiLineString_view(2)[where mls = "multiPolygonBoundary polys" and st = st and c = c] by auto
  next
    case (GeometryCollection gs)
    then show ?thesis using assms st by simp
  qed
qed

lemma findLoop_view_recorded:
  "findLoop gs st = Inr st' \<Longrightarrow> fst st' c = recorded (fst st c) (occurrencesIn c gs)"
proof (induction gs arbitrary: st)
  case Nil
  then show ?case by (simp add: occurrencesIn_def)
next
  case (Cons g gs)
  then obtain st1 where g: "addGeometryInteractions g st = Inr st1" and r: "findLoop gs st1 = Inr st'"
    by (auto split: sum.splits)
  show ?case
    using Cons.IH[OF r] addGeometry_view(1)[OF g, where c = c]
    by (simp add: occurrencesIn_def recorded_append)
qed

lemma findLoop_view_hits:
  "findLoop gs st = Inr st' \<Longrightarrow>
     c \<in> snd st' \<longleftrightarrow> c \<in> snd st \<or> (\<exists>g \<in> set gs. c \<in> pointCoords g) \<or> endpointIn c gs
           \<or> hits (fst st c) (occurrencesIn c gs)"
proof (induction gs arbitrary: st)
  case Nil
  then show ?case by (simp add: occurrencesIn_def endpointIn_def)
next
  case (Cons g gs)
  then obtain st1 where g: "addGeometryInteractions g st = Inr st1" and r: "findLoop gs st1 = Inr st'"
    by (auto split: sum.splits)
  have o: "occurrencesIn c (g # gs)
      = concat (map (occurrences c) (linearElements g)) @ occurrencesIn c gs"
    by (simp add: occurrencesIn_def)
  have e: "endpointIn c (g # gs)
      \<longleftrightarrow> (\<exists>s \<in> set (linearElements g). s \<noteq> [] \<and> (hd s = c \<or> last s = c)) \<or> endpointIn c gs"
    by (auto simp: endpointIn_def)
  show ?case
    unfolding o e hits_append
    using Cons.IH[OF r] addGeometry_view[OF g, where c = c]
    by (simp add: occurrencesIn_def) blast
qed

lemmas findLoop_view = findLoop_view_recorded findLoop_view_hits

lemma hits_Some:
  "hits (Some e) os \<longleftrightarrow> (\<exists>(p, n) \<in> set os. p = n \<or> canonicalPair p n \<noteq> e)"
  by (induction os) auto

lemma recorded_Some: "recorded (Some e) os = Some e"
  by (induction os) auto

lemma hits_None:
  "hits None os \<longleftrightarrow>
     (\<exists>(p, n) \<in> set os. p = n)
     \<or> (\<exists>(p, n) \<in> set (tl (filter (\<lambda>(p, n). p \<noteq> n) os)).
          {p, n} \<noteq> {fst (hd (filter (\<lambda>(p, n). p \<noteq> n) os)), snd (hd (filter (\<lambda>(p, n). p \<noteq> n) os))})"
proof (induction os)
  case Nil
  then show ?case by simp
next
  case (Cons x os)
  obtain p n where x: "x = (p, n)" by (cases x)
  show ?case
  proof (cases "p = n")
    case True
    then show ?thesis by (simp add: x)
  next
    case False
    have "hits None (x # os) = hits (Some (canonicalPair p n)) os" using False by (simp add: x)
    also have "\<dots> \<longleftrightarrow> (\<exists>(a, b) \<in> set os. a = b \<or> canonicalPair a b \<noteq> canonicalPair p n)"
      by (rule hits_Some)
    also have "\<dots> \<longleftrightarrow> (\<exists>(a, b) \<in> set os. a = b)
        \<or> (\<exists>(a, b) \<in> set (filter (\<lambda>(p, n). p \<noteq> n) os). {a, b} \<noteq> {p, n})"
      unfolding canonicalPair_eq_iff set_filter case_prod_beta by blast
    finally show ?thesis using False by (simp add: x)
  qed
qed

lemma recorded_None:
  "recorded None os
     = (case filter (\<lambda>(p, n). p \<noteq> n) os of [] \<Rightarrow> None | (p, n) # rest \<Rightarrow> Some (canonicalPair p n))"
proof (induction os)
  case Nil
  then show ?case by simp
next
  case (Cons x os)
  obtain p n where x: "x = (p, n)" by (cases x)
  show ?case using Cons by (cases "p = n") (simp_all add: x recorded_Some)
qed

text \<open>
  Claim C6. For a run of \<^verbatim>\<open>findInteractionPoints\<close> that returns, take the
  occurrences of \<open>cur\<close> as an interior vertex of the linear elements with
  \<open>prev \<noteq> next\<close>, in the order of the run. The pair recorded for \<open>cur\<close> is the
  canonical pair of the first of them, and \<open>cur\<close> is in the interaction set exactly when
  it is the coordinate of a point or an end point of a linear element, or at one of its
  occurrences \<open>prev = next\<close>, or the unordered pair \<open>{prev, next}\<close> of a later
  occurrence differs from the pair of the first one. So a later occurrence whose
  unordered pair is that of the first, in either direction, adds no interaction.
\<close>

theorem later_occurrence_adds_interaction_iff_pairs_differ:
  assumes "findLoop gs (Map.empty, {}) = Inr (adjacents, interactions)"
  shows "findInteractionPoints gs = Inr interactions
       \<and> (let occs = filter (\<lambda>(prv, nxt). prv \<noteq> nxt) (occurrencesIn cur gs) in
            adjacents cur
              = (case occs of [] \<Rightarrow> None | (prv, nxt) # later \<Rightarrow> Some (canonicalPair prv nxt))
          \<and> (cur \<in> interactions \<longleftrightarrow>
                (\<exists>g \<in> set gs. cur \<in> pointCoords g) \<or> endpointIn cur gs
                \<or> (\<exists>(prv, nxt) \<in> set (occurrencesIn cur gs). prv = nxt)
                \<or> (\<exists>(prv, nxt) \<in> set (tl occs). {prv, nxt} \<noteq> {fst (hd occs), snd (hd occs)})))"
proof -
  have "findInteractionPoints gs = Inr interactions"
    using assms by (simp add: findInteractionPoints_def)
  moreover have "adjacents cur
      = (case filter (\<lambda>(prv, nxt). prv \<noteq> nxt) (occurrencesIn cur gs) of
           [] \<Rightarrow> None | (prv, nxt) # later \<Rightarrow> Some (canonicalPair prv nxt))"
    using findLoop_view(1)[OF assms, where c = cur] by (simp add: recorded_None)
  moreover have "cur \<in> interactions \<longleftrightarrow>
      (\<exists>g \<in> set gs. cur \<in> pointCoords g) \<or> endpointIn cur gs
      \<or> (\<exists>(prv, nxt) \<in> set (occurrencesIn cur gs). prv = nxt)
      \<or> (\<exists>(prv, nxt) \<in> set (tl (filter (\<lambda>(prv, nxt). prv \<noteq> nxt) (occurrencesIn cur gs))).
            {prv, nxt} \<noteq> {fst (hd (filter (\<lambda>(prv, nxt). prv \<noteq> nxt) (occurrencesIn cur gs))),
                           snd (hd (filter (\<lambda>(prv, nxt). prv \<noteq> nxt) (occurrencesIn cur gs)))})"
    using findLoop_view(2)[OF assms, where c = cur] hits_None[of "occurrencesIn cur gs"]
    by simp
  ultimately show ?thesis unfolding Let_def by blast
qed

lemma three_crossings_run:
  "\<exists>adjacents interactions.
     findLoop [LineString [(0, 0), (1, 0), (2, 0)], LineString [(2, 0), (1, 0), (0, 0)],
               LineString [(1, 1), (1, 0), (1, - 1)]] (Map.empty, {})
       = Inr (adjacents, interactions)"
  by (simp add: prod_eq_iff)

lemma three_crossings_occurrences:
  "occurrencesIn (1, 0) [LineString [(0, 0), (1, 0), (2, 0)], LineString [(2, 0), (1, 0), (0, 0)],
               LineString [(1, 1), (1, 0), (1, - 1)]]
     = [((0, 0), (2, 0)), ((2, 0), (0, 0)), ((1, 1), (1, - 1))]"
  by (simp add: occurrencesIn_def occurrences_def upt_rec)

theorem later_occurrence_adds_interaction_iff_pairs_differ_witness:
  "\<exists>adjacents interactions.
     findLoop [LineString [(0, 0), (1, 0), (2, 0)], LineString [(2, 0), (1, 0), (0, 0)],
               LineString [(1, 1), (1, 0), (1, - 1)]] (Map.empty, {})
       = Inr (adjacents, interactions)
     \<and> findInteractionPoints [LineString [(0, 0), (1, 0), (2, 0)],
          LineString [(2, 0), (1, 0), (0, 0)], LineString [(1, 1), (1, 0), (1, - 1)]]
       = Inr interactions
     \<and> adjacents (1, 0) = Some (canonicalPair (0, 0) (2, 0))
     \<and> (1, 0) \<in> interactions"
proof -
  from three_crossings_run obtain adjacents interactions where
    r: "findLoop [LineString [(0, 0), (1, 0), (2, 0)], LineString [(2, 0), (1, 0), (0, 0)],
               LineString [(1, 1), (1, 0), (1, - 1)]] (Map.empty, {})
       = Inr (adjacents, interactions)" by blast
  from later_occurrence_adds_interaction_iff_pairs_differ[OF r, of "(1, 0)"]
  have "findInteractionPoints [LineString [(0, 0), (1, 0), (2, 0)],
          LineString [(2, 0), (1, 0), (0, 0)], LineString [(1, 1), (1, 0), (1, - 1)]]
       = Inr interactions
     \<and> adjacents (1, 0) = Some (canonicalPair (0, 0) (2, 0))
     \<and> (1, 0) \<in> interactions"
    unfolding three_crossings_occurrences by (simp add: doubleton_eq_iff)
  with r show ?thesis by blast
qed

lemma step_stable:
  assumes "lineStringStep prv cur nxt (adj, ints) = (adj', ints')"
  shows "ints \<subseteq> ints'" and "adj c = Some q \<Longrightarrow> adj' c = Some q"
  using assms by (auto simp: lineStringStep_def Let_def split: if_splits option.splits)

lemma step_records:
  assumes "lineStringStep prv cur nxt (adj, ints) = (adj', ints')"
  shows "cur \<in> ints' \<or> adj' cur = Some (canonicalPair prv nxt)"
  using assms by (auto simp: lineStringStep_def Let_def split: if_splits option.splits)

lemma settled_step:
  assumes "settled xy q st"
  shows "settled xy q (lineStringStep prv cur nxt st)"
proof -
  obtain adj ints where st: "st = (adj, ints)" by (cases st)
  obtain adj' ints' where r: "lineStringStep prv cur nxt (adj, ints) = (adj', ints')"
    by (cases "lineStringStep prv cur nxt (adj, ints)")
  from step_stable(1)[OF r] step_stable(2)[OF r, of xy q] assms
  show ?thesis by (auto simp: settled_def st r)
qed

lemma settled_fold_steps:
  "settled xy q st \<Longrightarrow> settled xy q (fold (lineStringIndexStep s) js st)"
  by (induction js arbitrary: st) (auto simp: lineStringIndexStep_def settled_step)

lemma settled_addLineString:
  "settled xy q st \<Longrightarrow> settled xy q (addLineStringInteractions s st)"
proof -
  assume a: "settled xy q st"
  obtain adj ints where st: "st = (adj, ints)" by (cases st)
  have "settled xy q (adj, addEndpoints s ints)"
    using a st by (auto simp: settled_def addEndpoints_def split: list.splits)
  then show ?thesis
    by (simp add: st addLineStringInteractions_def settled_fold_steps)
qed

lemma fold_steps_records:
  "i \<in> set js \<Longrightarrow>
     settled (s ! i) (canonicalPair (s ! (i - 1)) (s ! (i + 1))) (fold (lineStringIndexStep s) js st)"
proof (induction js arbitrary: st)
  case Nil
  then show ?case by simp
next
  case (Cons j js)
  show ?case
  proof (cases "j = i")
    case True
    have "settled (s ! i) (canonicalPair (s ! (i - 1)) (s ! (i + 1))) (lineStringIndexStep s i st)"
      using step_records[of "s ! (i - 1)" "s ! i" "s ! (i + 1)" "fst st" "snd st"]
      by (cases st; cases "lineStringIndexStep s i st") (auto simp: settled_def lineStringIndexStep_def)
    then show ?thesis using True by (simp add: settled_fold_steps)
  next
    case False
    then show ?thesis using Cons by simp
  qed
qed

lemma inter_mono_fold:
  "xy \<in> snd st \<Longrightarrow> xy \<in> snd (fold (lineStringIndexStep s) js st)"
proof (induction js arbitrary: st)
  case Nil then show ?case by simp
next
  case (Cons j js)
  have "xy \<in> snd (lineStringIndexStep s j st)"
    using step_stable(1)[of "s ! (j - 1)" "s ! j" "s ! (j + 1)" "fst st" "snd st"] Cons.prems
    by (cases st; cases "lineStringIndexStep s j st") (auto simp: lineStringIndexStep_def)
  then show ?case using Cons.IH by simp
qed

lemma inter_mono_addLineString:
  "xy \<in> snd st \<Longrightarrow> xy \<in> snd (addLineStringInteractions s st)"
  by (cases st) (auto simp: addLineStringInteractions_def addEndpoints_def
        intro!: inter_mono_fold split: list.splits)

lemma addLineString_vertex:
  assumes "i < length s"
  shows "s ! i \<in> snd (addLineStringInteractions s st)
         \<or> (0 < i \<and> i < length s - 1
             \<and> settled (s ! i) (canonicalPair (s ! (i - 1)) (s ! (i + 1)))
                  (addLineStringInteractions s st))"
proof -
  obtain adj ints where st: "st = (adj, ints)" by (cases st)
  have ne: "s \<noteq> []" using assms by auto
  show ?thesis
  proof (cases "i = 0 \<or> i = length s - 1")
    case True
    then have "s ! i \<in> addEndpoints s ints"
      using ne by (auto simp: addEndpoints_def hd_conv_nth last_conv_nth split: list.splits)
    then show ?thesis
      by (simp add: st addLineStringInteractions_def inter_mono_fold)
  next
    case False
    then have "i \<in> set [1 ..< length s - 1]" using assms by auto
    moreover have "0 < i \<and> i < length s - 1" using False assms by auto
    ultimately show ?thesis
      using fold_steps_records[of i "[1 ..< length s - 1]" s "(adj, addEndpoints s ints)"]
      by (simp add: st addLineStringInteractions_def)
  qed
qed


text \<open>
  Claim C2, as amended. A coordinate that is a vertex of both line strings is in
  \<^verbatim>\<open>findInteractionPoints([l1, l2])\<close> when at one of the two occurrences it is an end
  point of its line string, or when its two neighbours in \<open>l1\<close> and its two neighbours
  in \<open>l2\<close> differ as unordered pairs. No precondition on the line strings is needed.
\<close>

theorem shared_vertex_is_interaction_unless_overlap:
  assumes "i < length l1" and "j < length l2" and "l1 ! i = xy" and "l2 ! j = xy"
    and "i = 0 \<or> i = length l1 - 1 \<or> j = 0 \<or> j = length l2 - 1
         \<or> {l1 ! (i - 1), l1 ! (i + 1)} \<noteq> {l2 ! (j - 1), l2 ! (j + 1)}"
  shows "\<exists>interactions. findInteractionPoints [LineString l1, LineString l2] = Inr interactions
           \<and> xy \<in> interactions"
proof -
  define st1 where "st1 = addLineStringInteractions l1 (Map.empty, {})"
  define st2 where "st2 = addLineStringInteractions l2 st1"
  have res: "findInteractionPoints [LineString l1, LineString l2] = Inr (snd st2)"
    by (cases st2) (simp add: findInteractionPoints_def st1_def st2_def)
  let ?c1 = "canonicalPair (l1 ! (i - 1)) (l1 ! (i + 1))"
  let ?c2 = "canonicalPair (l2 ! (j - 1)) (l2 ! (j + 1))"
  have a1: "xy \<in> snd st1 \<or> (0 < i \<and> i < length l1 - 1 \<and> settled xy ?c1 st1)"
    using addLineString_vertex[OF assms(1), of "(Map.empty, {})"] assms(3) by (simp add: st1_def)
  have a2: "xy \<in> snd st2 \<or> (0 < j \<and> j < length l2 - 1 \<and> settled xy ?c2 st2)"
    using addLineString_vertex[OF assms(2), of st1] assms(4) by (simp add: st2_def)
  have "xy \<in> snd st2"
  proof (rule ccontr)
    assume n: "xy \<notin> snd st2"
    then have n1: "xy \<notin> snd st1" using inter_mono_addLineString[of xy st1 l2] by (auto simp: st2_def)
    from a1 n1 have i: "0 < i" "i < length l1 - 1" "settled xy ?c1 st1" by auto
    from a2 n have j: "0 < j" "j < length l2 - 1" "settled xy ?c2 st2" by auto
    have "settled xy ?c1 st2" using settled_addLineString[OF i(3)] by (simp add: st2_def)
    then have "?c1 = ?c2" using j(3) n by (auto simp: settled_def)
    then have "{l1 ! (i - 1), l1 ! (i + 1)} = {l2 ! (j - 1), l2 ! (j + 1)}"
      by (simp add: canonicalPair_eq_iff)
    then show False using assms(5) i j by auto
  qed
  then show ?thesis using res by simp
qed


theorem shared_vertex_is_interaction_unless_overlap_witness:
  "(1::nat) < length [(0, 0), (1, 1), (2::real, 2::real)] \<and> (1::nat) < length [(0, 2), (1, 1), (2::real, 0::real)]
   \<and> [(0, 0), (1, 1), (2::real, 2::real)] ! 1 = (1, 1) \<and> [(0, 2), (1, 1), (2::real, 0::real)] ! 1 = (1, 1)
   \<and> {[(0, 0), (1, 1), (2::real, 2::real)] ! (1 - 1), [(0, 0), (1, 1), (2::real, 2::real)] ! (1 + 1)}
       \<noteq> {[(0, 2), (1, 1), (2::real, 0::real)] ! (1 - 1), [(0, 2), (1, 1), (2::real, 0::real)] ! (1 + 1)}
   \<and> (\<exists>interactions.
         findInteractionPoints [LineString [(0, 0), (1, 1), (2, 2)], LineString [(0, 2), (1, 1), (2, 0)]]
           = Inr interactions \<and> (1, 1) \<in> interactions)"
  using shared_vertex_is_interaction_unless_overlap
    [of 1 "[(0, 0), (1, 1), (2, 2)]" 1 "[(0, 2), (1, 1), (2, 0)]" "(1, 1)"]
  by (simp add: doubleton_eq_iff)

lemma overlap_run:
  "findInteractionPoints [LineString [(0, 0), (1, 0), (2, 0)], LineString [(2, 0), (1, 0), (0, 0)]]
     = Inr {(0, 0), (2, 0)}"
  by (simp add: findInteractionPoints_def addLineStringInteractions_def addEndpoints_def
        lineStringIndexStep_def lineStringStep_def canonicalPair_def xyLess_def Let_def insert_commute)

lemma overlap_noded:
  "mutuallyNoded [(0, 0), (1, 0), (2, 0)] [(2, 0), (1, 0), (0, 0)]"
  unfolding mutuallyNoded_def segmentsOf_def onSegment_def
  by (auto simp: doubleton_eq_iff)


text \<open>
  Claim C2, as stated, fails: two line strings that run through the same three
  coordinates, in opposite directions, are noded and have no repeated coordinate, and
  the middle coordinate is a vertex of both and not an interaction point.
\<close>

theorem shared_vertex_counterexample:
  "mutuallyNoded [(0, 0), (1, 0), (2, 0)] [(2, 0), (1, 0), (0, 0)]
   \<and> distinct_adj [(0, 0), (1, 0), (2::real, 0::real)]
   \<and> distinct_adj [(2, 0), (1, 0), (0::real, 0::real)]
   \<and> (1, 0) \<in> set [(0, 0), (1, 0), (2, 0)] \<and> (1, 0) \<in> set [(2, 0), (1, 0), (0, 0)]
   \<and> findInteractionPoints [LineString [(0, 0), (1, 0), (2, 0)], LineString [(2, 0), (1, 0), (0, 0)]]
        = Inr {(0, 0), (2, 0)}
   \<and> (1, 0) \<notin> {(0, 0), (2::real, 0::real)}"
  using overlap_run overlap_noded by simp

section \<open>Invariants of the loops\<close>

lemma segmentLoop_invariant_aux:
  assumes "segmentLoop s interactions fn i st = Some r"
  shows "(\<forall>seg a b. P a \<longrightarrow> fn seg a = Inr b \<longrightarrow> P b) \<longrightarrow> P st \<longrightarrow> (\<forall>st'. r = Inr st' \<longrightarrow> P st')"
proof (rule segmentLoop.raw_induct[where P = "\<lambda>s interactions fn i st r.
    (\<forall>seg a b. P a \<longrightarrow> fn seg a = Inr b \<longrightarrow> P b) \<longrightarrow> P st \<longrightarrow> (\<forall>st'. r = Inr st' \<longrightarrow> P st')",
    OF _ assms], goal_cases)
  case (1 loop s interactions fn i st r)
  show ?case
  proof (intro impI allI)
    fix st'
    assume step: "\<forall>seg a b. P a \<longrightarrow> fn seg a = Inr b \<longrightarrow> P b" and p: "P st" and r: "r = Inr st'"
    show "P st'"
    proof (cases "i < length s - 1")
      case False
      then show ?thesis using 1(2) p r by simp
    next
      case True
      then obtain segment where sl: "slice s i (findEnd s interactions i + 1) = Inr segment"
        using 1(2) r by (cases "slice s i (findEnd s interactions i + 1)") auto
      then obtain st1 where f: "fn segment st = Inr st1"
        using 1(2) r True by (cases "fn segment st") auto
      have rec: "loop s interactions fn (findEnd s interactions i) st1 = Some r"
        using 1(2) True sl f by simp
      have "P st1" using step p f by blast
      with 1(1)[OF rec] step r show ?thesis by blast
    qed
  qed
qed

lemma segmentLoop_invariant:
  assumes "segmentLoop s interactions fn i st = Some (Inr st')"
    and "P st"
    and "\<And>seg a b. P a \<Longrightarrow> fn seg a = Inr b \<Longrightarrow> P b"
  shows "P st'"
  using segmentLoop_invariant_aux[OF assms(1), of P] assms(2,3) by blast

lemma forEach_invariant:
  assumes "forEachNonInteractingSegment s interactions fn st = Some (Inr st')"
    and "P st"
    and "\<And>seg a b. P a \<Longrightarrow> fn seg a = Inr b \<Longrightarrow> P b"
  shows "P st'"
  using assms unfolding forEachNonInteractingSegment_def by (rule segmentLoop_invariant)

lemma foldRes_invariant:
  assumes "foldRes f xs st = Some (Inr st')"
    and "P st"
    and "\<And>x a b. x \<in> set xs \<Longrightarrow> P a \<Longrightarrow> f x a = Some (Inr b) \<Longrightarrow> P b"
  shows "P st'"
  using assms
proof (induction xs arbitrary: st)
  case Nil
  then show ?case by simp
next
  case (Cons x xs)
  from Cons.prems(1) obtain st1 where f: "f x st = Some (Inr st1)"
    and r: "foldRes f xs st1 = Some (Inr st')"
    by (auto split: option.splits sum.splits)
  have "P st1" using Cons.prems(2,3) f by auto
  then show ?case using Cons.IH[OF r] Cons.prems(3) by auto
qed

section \<open>The twin invariant\<close>

lemma twinsPaired_append_pair:
  assumes "twinsPaired hs" and "twin e1 = Some (Suc (length hs))" and "twin e2 = Some (length hs)"
    and "seq e2 = rev (seq e1)"
  shows "twinsPaired (hs @ [e1, e2])"
  unfolding twinsPaired_def
proof (intro allI impI)
  fix i assume i: "i < length (hs @ [e1, e2])"
  let ?hs = "hs @ [e1, e2]"
  have n0: "?hs ! length hs = e1" by simp
  have n1: "?hs ! Suc (length hs) = e2" by (simp add: nth_append)
  have old: "\<And>k. k < length hs \<Longrightarrow> ?hs ! k = hs ! k" by (simp add: nth_append)
  have len: "length ?hs = Suc (Suc (length hs))" by simp
  have "i < length hs \<or> i = length hs \<or> i = Suc (length hs)" using i len by linarith
  then show "case twin (?hs ! i) of None \<Rightarrow> False
      | Some j \<Rightarrow> j < length ?hs \<and> twin (?hs ! j) = Some i
                 \<and> seq (?hs ! j) = rev (seq (?hs ! i))"
  proof (elim disjE)
    assume 1: "i < length hs"
    with assms(1) obtain j where j: "twin (hs ! i) = Some j" "j < length hs"
      "twin (hs ! j) = Some i" "seq (hs ! j) = rev (seq (hs ! i))"
      unfolding twinsPaired_def by (cases "twin (hs ! i)") force+
    have "j < length ?hs" using j(2) len by linarith
    then show ?thesis using j old[OF 1] old[OF j(2)] by simp
  next
    assume 2: "i = length hs"
    have "Suc (length hs) < length ?hs" using len by linarith
    then show ?thesis unfolding 2 n0 using assms(2,3,4) n1 n0 by simp
  next
    assume 3: "i = Suc (length hs)"
    have "length hs < length ?hs" using len by linarith
    then show ?thesis unfolding 3 n1 using assms(2,3,4) n1 n0 by simp
  qed
qed

lemma twinsPaired_transfer:
  assumes "map twin hs' = map twin hs" and "map seq hs' = map seq hs" and "twinsPaired hs"
  shows "twinsPaired hs'"
proof -
  have len: "length hs' = length hs" using assms(1) by (rule map_eq_imp_length_eq)
  have tw: "twin (hs' ! i) = twin (hs ! i)" if "i < length hs" for i
  proof -
    have "map twin hs' ! i = map twin hs ! i" using assms(1) by simp
    then show ?thesis using that len by simp
  qed
  have sq: "seq (hs' ! i) = seq (hs ! i)" if "i < length hs" for i
  proof -
    have "map seq hs' ! i = map seq hs ! i" using assms(2) by simp
    then show ?thesis using that len by simp
  qed
  show ?thesis
    unfolding twinsPaired_def
  proof (intro allI impI)
    fix i assume "i < length hs'"
    then have i: "i < length hs" using len by simp
    with assms(3) obtain j where j: "twin (hs ! i) = Some j" "j < length hs"
      "twin (hs ! j) = Some i" "seq (hs ! j) = rev (seq (hs ! i))"
      unfolding twinsPaired_def by (cases "twin (hs ! i)") force+
    show "case twin (hs' ! i) of None \<Rightarrow> False
      | Some j \<Rightarrow> j < length hs' \<and> twin (hs' ! j) = Some i \<and> seq (hs' ! j) = rev (seq (hs' ! i))"
      using j tw[OF i] tw[OF j(2)] sq[OF i] sq[OF j(2)] len by simp
  qed
qed

lemma map_update_same:
  "f y = f (xs ! i) \<Longrightarrow> map f (xs[i := y]) = map f xs"
  by (cases "i < length xs") (simp_all add: map_update list_update_same_conv list_update_beyond)

lemma linkStep_keeps:
  "map twin (linkStep base n i es) = map twin es \<and> map seq (linkStep base n i es) = map seq es"
  by (simp add: linkStep_def Let_def map_update_same)

lemma linkRing_keeps:
  "map twin (linkRing base es) = map twin es \<and> map seq (linkRing base es) = map seq es"
proof -
  have "\<And>es. map twin (fold (linkStep base n) js es) = map twin es
             \<and> map seq (fold (linkStep base n) js es) = map seq es" for js n
    by (induction js) (simp_all add: linkStep_keeps)
  then show ?thesis by (simp add: linkRing_def)
qed

lemma rewireStep_keeps:
  "rewireStep p hs = Inr hs' \<Longrightarrow> map twin hs' = map twin hs \<and> map seq hs' = map seq hs"
  by (auto simp: rewireStep_def Let_def map_update_same split: prod.splits if_splits option.splits)

lemma foldE_rewire_keeps:
  "foldE rewireStep ps hs = Inr hs' \<Longrightarrow> map twin hs' = map twin hs \<and> map seq hs' = map seq hs"
proof (induction ps arbitrary: hs)
  case Nil
  then show ?case by simp
next
  case (Cons p ps)
  then obtain hs1 where a: "rewireStep p hs = Inr hs1" and b: "foldE rewireStep ps hs1 = Inr hs'"
    by (auto simp: bindE_def split: sum.splits)
  show ?case using rewireStep_keeps[OF a] Cons.IH[OF b] by simp
qed

lemma fixVertex_keeps:
  assumes "fixVertex bearing xy d = Inr d'"
  shows "map twin (halfEdges d') = map twin (halfEdges d)"
    and "map seq (halfEdges d') = map seq (halfEdges d)"
    and "vertices d' = vertices d"
proof -
  from assms obtain ps hs where r: "foldE rewireStep ps (halfEdges d) = Inr hs"
    and d': "d' = d\<lparr>halfEdges := hs\<rparr>"
    unfolding fixVertex_def bindE_def Let_def
    by (simp split: option.splits sum.splits)
  from foldE_rewire_keeps[OF r] d'
  show "map twin (halfEdges d') = map twin (halfEdges d)"
    and "map seq (halfEdges d') = map seq (halfEdges d)"
    and "vertices d' = vertices d" by simp_all
qed

lemma appendIncident_halfEdges:
  "appendIncident xy e d = Inr d' \<Longrightarrow> halfEdges d' = halfEdges d"
  by (auto simp: appendIncident_def split: option.splits)

lemma bindE_eq_Inr_iff: "bindE m f = Inr y \<longleftrightarrow> (\<exists>x. m = Inr x \<and> f x = Inr y)"
  by (cases m) (simp_all add: bindE_def)

lemma ringSegment_Inr:
  assumes "ringSegment op segment (d, ne) = Inr (d', ne')"
  obtains xyA xyB d1 where
    "getXY segment 0 = Inr xyA" "getXY (reverseSequence segment) 0 = Inr xyB"
    "appendIncident xyA (length (halfEdges d) + length ne) d = Inr d1"
    "appendIncident xyB (Suc (length (halfEdges d) + length ne)) d1 = Inr d'"
    "ne' = ne @ [(newHalfEdge xyA (Some (Suc (length (halfEdges d) + length ne))) None None segment)
                        \<lparr>srcEdge := setFlag op, srcFace := setFlag op\<rparr>,
                      (newHalfEdge xyB (Some (length (halfEdges d) + length ne)) None None
                         (reverseSequence segment))\<lparr>srcEdge := setFlag op\<rparr>]"
  using assms by (auto simp: ringSegment_def Let_def bindE_eq_Inr_iff)

lemma lineSegment_Inr:
  assumes "lineSegment op segment (d, edges) = Inr (d', edges')"
  obtains (skip) "containsStartIntermediateEnd edges segment" "d' = d" "edges' = edges"
  | (add) startXY endXY d1 d2 where
    "getXY segment 0 = Inr startXY" "getXY (reverseSequence segment) 0 = Inr endXY"
    "appendIncident startXY (length (halfEdges d)) d = Inr d1"
    "appendIncident endXY (Suc (length (halfEdges d))) d1 = Inr d2"
    "d' = d2\<lparr>halfEdges := halfEdges d2 @
            [(newHalfEdge startXY (Some (Suc (length (halfEdges d)))) (Some (Suc (length (halfEdges d))))
                (Some (Suc (length (halfEdges d)))) segment)\<lparr>srcEdge := setFlag op\<rparr>,
             (newHalfEdge endXY (Some (length (halfEdges d))) (Some (length (halfEdges d)))
                (Some (length (halfEdges d))) (reverseSequence segment))\<lparr>srcEdge := setFlag op\<rparr>]\<rparr>"
  using assms by (auto simp: lineSegment_def Let_def bindE_eq_Inr_iff split: if_splits)

lemma addGhostLine_Inr:
  assumes "addGhostLine bearing segment reverseSegment op d = Inr d'"
  obtains xyA xyB d1 d2 d3 where
    "getXY segment 0 = Inr xyA" "getXY reverseSegment 0 = Inr xyB"
    "appendIncident xyA (length (halfEdges d)) d = Inr d1"
    "appendIncident xyB (Suc (length (halfEdges d))) d1 = Inr d2"
    "fixVertex bearing xyA (d2\<lparr>halfEdges := halfEdges d2 @
            [newHalfEdge xyA (Some (Suc (length (halfEdges d)))) (Some (Suc (length (halfEdges d))))
                (Some (Suc (length (halfEdges d)))) segment,
             newHalfEdge xyB (Some (length (halfEdges d))) (Some (length (halfEdges d)))
                (Some (length (halfEdges d))) reverseSegment]\<rparr>) = Inr d3"
    "fixVertex bearing xyB d3 = Inr d'"
  using assms by (auto simp: addGhostLine_def Let_def bindE_eq_Inr_iff)

lemma ghostSegment_Inr:
  assumes "ghostSegment bearing op segment (d, edges) = Inr (d', edges')"
  obtains (skip) startXY endXY where
    "getXY segment 0 = Inr startXY" "getXY (reverseSequence segment) 0 = Inr endXY"
    "d' = ensureVertex endXY (ensureVertex startXY d)"
  | (add) startXY endXY where
    "getXY segment 0 = Inr startXY" "getXY (reverseSequence segment) 0 = Inr endXY"
    "addGhostLine bearing segment (reverseSequence segment) op
       (ensureVertex endXY (ensureVertex startXY d)) = Inr d'"
  using assms by (auto simp: ghostSegment_def Let_def bindE_eq_Inr_iff split: if_splits)

lemma ensureVertex_halfEdges: "halfEdges (ensureVertex xy d) = halfEdges d"
  by (simp add: ensureVertex_def split: option.splits)

lemma ringSegment_twins:
  assumes "ringSegment op segment (d, ne) = Inr (d', ne')"
    and "twinsPaired (halfEdges d @ ne)"
  shows "twinsPaired (halfEdges d' @ ne')"
proof -
  from assms(1) obtain xyA xyB d1 where
    a: "appendIncident xyA (length (halfEdges d) + length ne) d = Inr d1" and
    b: "appendIncident xyB (Suc (length (halfEdges d) + length ne)) d1 = Inr d'" and
    ne': "ne' = ne @ [(newHalfEdge xyA (Some (Suc (length (halfEdges d) + length ne))) None None segment)
                        \<lparr>srcEdge := setFlag op, srcFace := setFlag op\<rparr>,
                      (newHalfEdge xyB (Some (length (halfEdges d) + length ne)) None None
                         (reverseSequence segment))\<lparr>srcEdge := setFlag op\<rparr>]"
    by (rule ringSegment_Inr)
  have h: "halfEdges d' = halfEdges d"
    using appendIncident_halfEdges[OF a] appendIncident_halfEdges[OF b] by simp
  have "twinsPaired ((halfEdges d @ ne) @
      [(newHalfEdge xyA (Some (Suc (length (halfEdges d) + length ne))) None None segment)
                        \<lparr>srcEdge := setFlag op, srcFace := setFlag op\<rparr>,
                      (newHalfEdge xyB (Some (length (halfEdges d) + length ne)) None None
                         (reverseSequence segment))\<lparr>srcEdge := setFlag op\<rparr>])"
    by (rule twinsPaired_append_pair[OF assms(2)])
       (simp_all add: newHalfEdge_def reverseSequence_def)
  then show ?thesis by (simp add: h ne')
qed

lemma addRing_twins:
  assumes "addRing op interactions ring d = Some (Inr d')" and "twinsPaired (halfEdges d)"
  shows "twinsPaired (halfEdges d')"
proof -
  from assms(1) obtain d1 ne where
    f: "forEachNonInteractingSegment ring interactions (ringSegment op) (d, []) = Some (Inr (d1, ne))"
    and d': "d' = d1\<lparr>halfEdges := halfEdges d1 @ linkRing (length (halfEdges d1)) ne\<rparr>"
    unfolding addRing_def by (auto split: option.splits sum.splits)
  have "(\<lambda>st. twinsPaired (halfEdges (fst st) @ snd st)) (d1, ne)"
  proof (rule forEach_invariant[OF f])
    show "twinsPaired (halfEdges (fst (d, [])) @ snd (d, []))" using assms(2) by simp
  next
    fix seg and a b :: "doublyConnectedEdgeList \<times> halfEdgeRecord list"
    assume p: "twinsPaired (halfEdges (fst a) @ snd a)" and r: "ringSegment op seg a = Inr b"
    obtain da na where a: "a = (da, na)" by (cases a)
    obtain db nb where b: "b = (db, nb)" by (cases b)
    show "twinsPaired (halfEdges (fst b) @ snd b)"
      using ringSegment_twins[OF r[unfolded a b]] p by (simp add: a b)
  qed
  then have "twinsPaired (halfEdges d1 @ ne)" by simp
  then have "twinsPaired (halfEdges d1 @ linkRing (length (halfEdges d1)) ne)"
    by (rule twinsPaired_transfer[rotated 2]) (simp_all add: linkRing_keeps)
  then show ?thesis by (simp add: d')
qed

lemma addPolygon_twins:
  assumes "addPolygon op interactions poly d = Some (Inr d')" and "twinsPaired (halfEdges d)"
  shows "twinsPaired (halfEdges d')"
proof (rule foldRes_invariant[where P = "\<lambda>d. twinsPaired (halfEdges d)",
        OF assms(1)[unfolded addPolygon_def Let_def]])
  show "twinsPaired (halfEdges (populateRingVertices op interactions (polygonRings poly) d))"
    using assms(2) by (simp add: populateRingVertices_def)
next
  fix x a b
  assume "twinsPaired (halfEdges a)" "addRing op interactions x a = Some (Inr b)"
  then show "twinsPaired (halfEdges b)" using addRing_twins by blast
qed

lemma addMultiPolygon_twins:
  assumes "addMultiPolygon mp op interactions d = Some (Inr d')" and "twinsPaired (halfEdges d)"
  shows "twinsPaired (halfEdges d')"
proof (rule foldRes_invariant[where P = "\<lambda>d. twinsPaired (halfEdges d)",
          OF assms(1)[unfolded addMultiPolygon_def] assms(2)])
  fix x a b
  assume "twinsPaired (halfEdges a)" "addPolygon op interactions x a = Some (Inr b)"
  then show "twinsPaired (halfEdges b)" using addPolygon_twins by blast
qed

lemma lineSegment_twins:
  assumes "lineSegment op segment (d, edges) = Inr (d', edges')"
    and "twinsPaired (halfEdges d)"
  shows "twinsPaired (halfEdges d')"
  using assms(1)
proof (cases rule: lineSegment_Inr)
  case skip
  then show ?thesis using assms(2) by simp
next
  case (add startXY endXY d1 d2)
  have h: "halfEdges d2 = halfEdges d"
    using appendIncident_halfEdges[OF add(3)] appendIncident_halfEdges[OF add(4)] by simp
  have "twinsPaired (halfEdges d @
            [(newHalfEdge startXY (Some (Suc (length (halfEdges d)))) (Some (Suc (length (halfEdges d))))
                (Some (Suc (length (halfEdges d)))) segment)\<lparr>srcEdge := setFlag op\<rparr>,
             (newHalfEdge endXY (Some (length (halfEdges d))) (Some (length (halfEdges d)))
                (Some (length (halfEdges d))) (reverseSequence segment))\<lparr>srcEdge := setFlag op\<rparr>])"
    by (rule twinsPaired_append_pair[OF assms(2)])
       (simp_all add: newHalfEdge_def reverseSequence_def)
  then show ?thesis by (simp add: h add(5))
qed

lemma addMultiLineString_twins:
  assumes "addMultiLineString mls op interactions d = Some (Inr d')" and "twinsPaired (halfEdges d)"
  shows "twinsPaired (halfEdges d')"
proof -
  let ?d1 = "d\<lparr>vertices := fold (addLineVertices op interactions) mls (vertices d)\<rparr>"
  from assms(1) obtain edges where
    f: "foldRes (\<lambda>s. forEachNonInteractingSegment s interactions (lineSegment op)) mls (?d1, {})
          = Some (Inr (d', edges))"
    unfolding addMultiLineString_def Let_def by (auto split: option.splits sum.splits)
  have "(\<lambda>st. twinsPaired (halfEdges (fst st))) (d', edges)"
  proof (rule foldRes_invariant[OF f])
    show "twinsPaired (halfEdges (fst (?d1, {}::edgeSet)))" using assms(2) by simp
  next
    fix s and a b :: "doublyConnectedEdgeList \<times> edgeSet"
    assume p: "twinsPaired (halfEdges (fst a))"
      and r: "forEachNonInteractingSegment s interactions (lineSegment op) a = Some (Inr b)"
    show "twinsPaired (halfEdges (fst b))"
    proof (rule forEach_invariant[OF r, where P = "\<lambda>st. twinsPaired (halfEdges (fst st))"])
      show "twinsPaired (halfEdges (fst a))" by (rule p)
    next
      fix seg and u v :: "doublyConnectedEdgeList \<times> edgeSet"
      assume q: "twinsPaired (halfEdges (fst u))" and t: "lineSegment op seg u = Inr v"
      obtain du eu where u: "u = (du, eu)" by (cases u)
      obtain dv ev where v: "v = (dv, ev)" by (cases v)
      show "twinsPaired (halfEdges (fst v))"
        using lineSegment_twins[OF t[unfolded u v]] q by (simp add: u v)
    qed
  qed
  then show ?thesis by simp
qed

lemma addGhostLine_twins:
  assumes "addGhostLine bearing segment (reverseSequence segment) op d = Inr d'"
    and "twinsPaired (halfEdges d)"
  shows "twinsPaired (halfEdges d')"
  using assms(1)
proof (cases rule: addGhostLine_Inr)
  case (1 xyA xyB d1 d2 d3)
  have h: "halfEdges d2 = halfEdges d"
    using appendIncident_halfEdges[OF 1(3)] appendIncident_halfEdges[OF 1(4)] by simp
  have "twinsPaired (halfEdges d @
            [newHalfEdge xyA (Some (Suc (length (halfEdges d)))) (Some (Suc (length (halfEdges d))))
                (Some (Suc (length (halfEdges d)))) segment,
             newHalfEdge xyB (Some (length (halfEdges d))) (Some (length (halfEdges d)))
                (Some (length (halfEdges d))) (reverseSequence segment)])"
    by (rule twinsPaired_append_pair[OF assms(2)])
       (simp_all add: newHalfEdge_def reverseSequence_def)
  then have "twinsPaired (halfEdges d3)"
    by (rule twinsPaired_transfer[rotated 2]) (simp_all add: fixVertex_keeps(1,2)[OF 1(5)] h)
  then show ?thesis
    by (rule twinsPaired_transfer[rotated 2]) (simp_all add: fixVertex_keeps(1,2)[OF 1(6)])
qed

lemma ghostSegment_twins:
  assumes "ghostSegment bearing op segment (d, edges) = Inr (d', edges')"
    and "twinsPaired (halfEdges d)"
  shows "twinsPaired (halfEdges d')"
  using assms(1)
proof (cases rule: ghostSegment_Inr)
  case (skip startXY endXY)
  then show ?thesis using assms(2) by (simp add: ensureVertex_halfEdges)
next
  case (add startXY endXY)
  show ?thesis
    by (rule addGhostLine_twins[OF add(3)]) (simp add: ensureVertex_halfEdges assms(2))
qed

lemma addGhosts_twins:
  assumes "addGhosts bearing mls op interactions d = Some (Inr d')" and "twinsPaired (halfEdges d)"
  shows "twinsPaired (halfEdges d')"
proof -
  from assms(1) obtain edges where
    f: "foldRes (\<lambda>s. forEachNonInteractingSegment s interactions (ghostSegment bearing op)) mls
          (d, fold insertEdge (halfEdges d) {}) = Some (Inr (d', edges))"
    unfolding addGhosts_def by (auto split: option.splits sum.splits)
  have "(\<lambda>st. twinsPaired (halfEdges (fst st))) (d', edges)"
  proof (rule foldRes_invariant[OF f])
    show "twinsPaired (halfEdges (fst (d, fold insertEdge (halfEdges d) {})))" using assms(2) by simp
  next
    fix s and a b :: "doublyConnectedEdgeList \<times> edgeSet"
    assume p: "twinsPaired (halfEdges (fst a))"
      and r: "forEachNonInteractingSegment s interactions (ghostSegment bearing op) a = Some (Inr b)"
    show "twinsPaired (halfEdges (fst b))"
    proof (rule forEach_invariant[OF r, where P = "\<lambda>st. twinsPaired (halfEdges (fst st))"])
      show "twinsPaired (halfEdges (fst a))" by (rule p)
    next
      fix seg and u v :: "doublyConnectedEdgeList \<times> edgeSet"
      assume q: "twinsPaired (halfEdges (fst u))" and t: "ghostSegment bearing op seg u = Inr v"
      obtain du eu where u: "u = (du, eu)" by (cases u)
      obtain dv ev where v: "v = (dv, ev)" by (cases v)
      show "twinsPaired (halfEdges (fst v))"
        using ghostSegment_twins[OF t[unfolded u v]] q by (simp add: u v)
    qed
  qed
  then show ?thesis by simp
qed

lemma addGeometry_twins:
  "addGeometry g op interactions d = Some (Inr d') \<Longrightarrow> twinsPaired (halfEdges d)
     \<Longrightarrow> twinsPaired (halfEdges d')"
proof (induction g arbitrary: d d')
  case (GeometryCollection gc)
  have f: "foldRes (\<lambda>g. addGeometry g op interactions) gc d = Some (Inr d')"
    using GeometryCollection.prems(1) by (simp add: foldRes_map)
  show ?case
  proof (rule foldRes_invariant[where P = "\<lambda>d. twinsPaired (halfEdges d)", OF f GeometryCollection.prems(2)])
    fix x a b
    assume "x \<in> set gc" "twinsPaired (halfEdges a)" "addGeometry x op interactions a = Some (Inr b)"
    then show "twinsPaired (halfEdges b)" using GeometryCollection.IH by blast
  qed
qed (auto simp: addMultiPoint_def dest: addMultiPolygon_twins addMultiLineString_twins)

lemmas eval_defs = buildDCEL_def applyAddition_def addMultiLineString_def addLineVertices_def
  lineVertexIndexStep_def lineVertexStep_def isClosed_def forEachNonInteractingSegment_def
  segmentLoop.simps slice_def findEnd_def lineSegment_def getXY_def reverseSequence_def
  containsStartIntermediateEnd_def insertStartIntermediateEnd_def appendIncident_def
  newHalfEdge_def newVertex_def setFlag_def emptyDCEL_def bindE_def Let_def noLocation_def
  addGhosts_def ghostSegment_def ensureVertex_def addGhostLine_def fixVertex_def insertEdge_def
  edgeBearing_def rewireStep_def

lemma applyAddition_twins:
  assumes "applyAddition bearing interactions a d = Some (Inr d')" and "twinsPaired (halfEdges d)"
  shows "twinsPaired (halfEdges d')"
proof (cases a)
  case (AddGeometry g op)
  then show ?thesis using assms addGeometry_twins[of g op interactions d d']
    by (simp add: applyAddition_def)
next
  case (AddGhosts mls op)
  then show ?thesis using assms addGhosts_twins[of bearing mls op interactions d d']
    by (simp add: applyAddition_def)
qed

text \<open>
  Claim C3. In every DCEL produced by a sequence of \<^verbatim>\<open>addGeometry\<close> and
  \<^verbatim>\<open>addGhosts\<close> calls, every half-edge \<open>e\<close> of \<^verbatim>\<open>halfEdges\<close> has a twin in
  \<^verbatim>\<open>halfEdges\<close> whose own twin is \<open>e\<close> and whose \<^verbatim>\<open>seq\<close> is the reverse of
  the \<^verbatim>\<open>seq\<close> of \<open>e\<close>.
\<close>

theorem built_dcel_twins_paired:
  assumes "buildDCEL bearing interactions additions = Some (Inr d)"
    and "i < length (halfEdges d)"
  shows "\<exists>j < length (halfEdges d).
           twin (halfEdges d ! i) = Some j
         \<and> twin (halfEdges d ! j) = Some i
         \<and> seq (halfEdges d ! j) = rev (seq (halfEdges d ! i))"
proof -
  have "twinsPaired (halfEdges d)"
  proof (rule foldRes_invariant[where P = "\<lambda>d. twinsPaired (halfEdges d)",
        OF assms(1)[unfolded buildDCEL_def]])
    show "twinsPaired (halfEdges emptyDCEL)" by (simp add: twinsPaired_def emptyDCEL_def)
  next
    fix x a b
    assume "twinsPaired (halfEdges a)" "applyAddition bearing interactions x a = Some (Inr b)"
    then show "twinsPaired (halfEdges b)" using applyAddition_twins by blast
  qed
  then show ?thesis using assms(2) unfolding twinsPaired_def
    by (cases "twin (halfEdges d ! i)") force+
qed

lemma line_and_ghost_build:
  "\<exists>d. buildDCEL (\<lambda>_. 0) {(0, 0), (1, 0), (2, 0)}
          [AddGeometry (LineString [(0, 0), (1, 0)]) OperandA,
           AddGhosts [[(1, 0), (2, 0)]] OperandA] = Some (Inr d)
       \<and> length (halfEdges d) = 4"
  by (simp add: eval_defs upt_rec)

theorem built_dcel_twins_paired_witness:
  "\<exists>d. buildDCEL (\<lambda>_. 0) {(0, 0), (1, 0), (2, 0)}
          [AddGeometry (LineString [(0, 0), (1, 0)]) OperandA,
           AddGhosts [[(1, 0), (2, 0)]] OperandA] = Some (Inr d)
       \<and> 3 < length (halfEdges d)
       \<and> (\<exists>j < length (halfEdges d).
             twin (halfEdges d ! 3) = Some j
           \<and> twin (halfEdges d ! j) = Some 3
           \<and> seq (halfEdges d ! j) = rev (seq (halfEdges d ! 3)))"
proof -
  from line_and_ghost_build obtain d where
    b: "buildDCEL (\<lambda>_. 0) {(0, 0), (1, 0), (2, 0)}
          [AddGeometry (LineString [(0, 0), (1, 0)]) OperandA,
           AddGhosts [[(1, 0), (2, 0)]] OperandA] = Some (Inr d)"
    and l: "length (halfEdges d) = 4" by blast
  have i: "3 < length (halfEdges d)" using l by simp
  from built_dcel_twins_paired[OF b i] b i show ?thesis by blast
qed

section \<open>Vertex locations\<close>

lemma boundaryAt_locationsOf:
  "locationsOf d' = locationsOf d \<Longrightarrow> boundaryAt (vertices d') p op = boundaryAt (vertices d) p op"
  unfolding boundaryAt_def locationsOf_def
  by (drule fun_cong[of _ _ p]) (auto split: option.splits)

lemma appendIncident_locationsOf:
  "appendIncident xy e d = Inr d' \<Longrightarrow> locationsOf d' = locationsOf d"
  by (auto simp: appendIncident_def locationsOf_def fun_eq_iff split: option.splits)

lemma locationsOf_halfEdges_update [simp]:
  "locationsOf (d\<lparr>halfEdges := hs\<rparr>) = locationsOf d"
  by (simp add: locationsOf_def fun_eq_iff)

lemma ringSegment_locationsOf:
  assumes "ringSegment op segment (d, ne) = Inr (d', ne')"
  shows "locationsOf d' = locationsOf d"
  using assms
proof (cases rule: ringSegment_Inr)
  case (1 xyA xyB d1)
  then show ?thesis using appendIncident_locationsOf by metis
qed

lemma lineSegment_locationsOf:
  assumes "lineSegment op segment (d, edges) = Inr (d', edges')"
  shows "locationsOf d' = locationsOf d"
  using assms
proof (cases rule: lineSegment_Inr)
  case skip
  then show ?thesis by simp
next
  case (add startXY endXY d1 d2)
  have "locationsOf d2 = locationsOf d"
    using appendIncident_locationsOf[OF add(3)] appendIncident_locationsOf[OF add(4)] by simp
  then show ?thesis by (simp add: add(5))
qed

lemma fixVertex_locationsOf:
  "fixVertex bearing xy d = Inr d' \<Longrightarrow> locationsOf d' = locationsOf d"
  using fixVertex_keeps(3)[of bearing xy d d'] by (simp add: locationsOf_def fun_eq_iff)

lemma addGhostLine_locationsOf:
  assumes "addGhostLine bearing segment reverseSegment op d = Inr d'"
  shows "locationsOf d' = locationsOf d"
  using assms
proof (cases rule: addGhostLine_Inr)
  case (1 xyA xyB d1 d2 d3)
  have "locationsOf d2 = locationsOf d"
    using appendIncident_locationsOf[OF 1(3)] appendIncident_locationsOf[OF 1(4)] by simp
  then show ?thesis
    using fixVertex_locationsOf[OF 1(5)] fixVertex_locationsOf[OF 1(6)] by simp
qed

lemma forEach_lineSegment_locationsOf:
  assumes "forEachNonInteractingSegment s interactions (lineSegment op) a = Some (Inr b)"
  shows "locationsOf (fst b) = locationsOf (fst a)"
proof (rule forEach_invariant[OF assms, where P = "\<lambda>st. locationsOf (fst st) = locationsOf (fst a)"])
  show "locationsOf (fst a) = locationsOf (fst a)" by simp
next
  fix seg and u v :: "doublyConnectedEdgeList \<times> edgeSet"
  assume q: "locationsOf (fst u) = locationsOf (fst a)" and t: "lineSegment op seg u = Inr v"
  obtain du eu where u: "u = (du, eu)" by (cases u)
  obtain dv ev where v: "v = (dv, ev)" by (cases v)
  show "locationsOf (fst v) = locationsOf (fst a)"
    using lineSegment_locationsOf[OF t[unfolded u v]] q by (simp add: u v)
qed

lemma addMultiLineString_locationsOf:
  assumes "addMultiLineString mls op interactions d = Some (Inr d')"
  shows "locationsOf d'
    = locationsOf (d\<lparr>vertices := fold (addLineVertices op interactions) mls (vertices d)\<rparr>)"
proof -
  let ?d1 = "d\<lparr>vertices := fold (addLineVertices op interactions) mls (vertices d)\<rparr>"
  from assms obtain edges where
    f: "foldRes (\<lambda>s. forEachNonInteractingSegment s interactions (lineSegment op)) mls (?d1, {})
          = Some (Inr (d', edges))"
    unfolding addMultiLineString_def Let_def by (auto split: option.splits sum.splits)
  have "(\<lambda>st. locationsOf (fst st) = locationsOf ?d1) (d', edges)"
  proof (rule foldRes_invariant[OF f])
    show "locationsOf (fst (?d1, {}::edgeSet)) = locationsOf ?d1" by simp
  next
    fix s and a b :: "doublyConnectedEdgeList \<times> edgeSet"
    assume "locationsOf (fst a) = locationsOf ?d1"
      and "forEachNonInteractingSegment s interactions (lineSegment op) a = Some (Inr b)"
    then show "locationsOf (fst b) = locationsOf ?d1"
      using forEach_lineSegment_locationsOf by metis
  qed
  then show ?thesis by simp
qed

text \<open>The vertex pass of one line string, seen from one coordinate.\<close>

lemma lineVertexStep_other:
  "xy \<noteq> p \<Longrightarrow> lineVertexStep op ob xy verts p = verts p"
  by (simp add: lineVertexStep_def split: option.splits)

lemma lineVertexStep_at:
  "(case lineVertexStep op ob p verts p of None \<Rightarrow> False | Some v \<Rightarrow> boundary (locations v op))
     = (if ob then \<not> (case verts p of None \<Rightarrow> False | Some v \<Rightarrow> boundary (locations v op))
        else (case verts p of None \<Rightarrow> False | Some v \<Rightarrow> boundary (locations v op)))"
  by (simp add: lineVertexStep_def newVertex_def noLocation_def split: option.splits)

lemma lineVertexStep_dom: "p \<in> dom verts \<Longrightarrow> p \<in> dom (lineVertexStep op ob xy verts)"
  by (auto simp: lineVertexStep_def split: option.splits)

lemma lineVertexStep_dom_at: "p \<in> dom (lineVertexStep op ob p verts)"
  by (auto simp: lineVertexStep_def split: option.splits)

lemma fold_index_steps_boundary:
  assumes "p \<in> interactions" and "\<not> isClosed s"
  shows "boundaryAt (fold (lineVertexIndexStep op interactions s) js verts) p op
     = (boundaryAt verts p op \<noteq> odd (length (filter (\<lambda>j. s ! j = p \<and> (j = 0 \<or> j = length s - 1)) js)))"
proof (induction js arbitrary: verts)
  case Nil
  then show ?case by simp
next
  case (Cons j js)
  have step: "boundaryAt (lineVertexIndexStep op interactions s j verts) p op
      = (if s ! j = p \<and> (j = 0 \<or> j = length s - 1) then \<not> boundaryAt verts p op else boundaryAt verts p op)"
  proof (cases "s ! j = p")
    case True
    then show ?thesis
      using assms lineVertexStep_at[of op "(j = 0 \<or> j = length s - 1)" p verts]
      by (simp add: lineVertexIndexStep_def boundaryAt_def)
  next
    case False
    then show ?thesis
      by (simp add: lineVertexIndexStep_def boundaryAt_def lineVertexStep_other)
  qed
  show ?case
    by (simp add: Cons.IH step) blast
qed

lemma fold_index_steps_dom:
  "p \<in> dom verts \<or> (\<exists>j \<in> set js. s ! j = p \<and> p \<in> interactions)
     \<Longrightarrow> p \<in> dom (fold (lineVertexIndexStep op interactions s) js verts)"
proof (induction js arbitrary: verts)
  case Nil
  then show ?case by simp
next
  case (Cons j js)
  have "p \<in> dom (lineVertexIndexStep op interactions s j verts)
        \<or> (\<exists>j \<in> set js. s ! j = p \<and> p \<in> interactions)"
  proof (cases "p \<in> dom verts")
    case True
    then show ?thesis using lineVertexStep_dom[of p verts]
      by (simp add: lineVertexIndexStep_def)
  next
    case False
    then have "\<exists>i \<in> set (j # js). s ! i = p \<and> p \<in> interactions" using Cons.prems by blast
    then show ?thesis
    proof (cases "s ! j = p \<and> p \<in> interactions")
      case True
      then show ?thesis using lineVertexStep_dom_at[of p]
        by (simp add: lineVertexIndexStep_def)
    next
      case False
      then show ?thesis using \<open>\<exists>i \<in> set (j # js). s ! i = p \<and> p \<in> interactions\<close> by auto
    qed
  qed
  then show ?case using Cons.IH by simp
qed

lemma open_line_one_endpoint:
  assumes "\<not> isClosed s" and "s \<noteq> []" and "hd s = p \<or> last s = p"
  shows "length (filter (\<lambda>j. s ! j = p \<and> (j = 0 \<or> j = length s - 1)) [0 ..< length s]) = 1"
proof -
  have ne: "hd s \<noteq> last s" using assms(1,2) by (simp add: isClosed_def)
  have h: "hd s = s ! 0" and l: "last s = s ! (length s - 1)"
    using assms(2) by (simp_all add: hd_conv_nth last_conv_nth)
  have pos: "0 < length s" using assms(2) by simp
  have "{j. s ! j = p \<and> (j = 0 \<or> j = length s - 1)} \<inter> set [0 ..< length s]
        = (if hd s = p then {0} else {length s - 1})"
    using ne h l pos assms(3) by auto
  then have "card ({j. s ! j = p \<and> (j = 0 \<or> j = length s - 1)} \<inter> set [0 ..< length s]) = 1"
    by simp
  then show ?thesis by (simp add: distinct_length_filter)
qed

lemma addLineVertices_toggles:
  assumes "p \<in> interactions" and "\<not> isClosed s" and "s \<noteq> []" and "hd s = p \<or> last s = p"
  shows "boundaryAt (addLineVertices op interactions s verts) p op = (\<not> boundaryAt verts p op)"
    and "p \<in> dom (addLineVertices op interactions s verts)"
proof -
  show "boundaryAt (addLineVertices op interactions s verts) p op = (\<not> boundaryAt verts p op)"
    unfolding addLineVertices_def
    using open_line_one_endpoint[OF assms(2-4)]
    by (simp add: fold_index_steps_boundary[OF assms(1,2)])
  have "\<exists>j \<in> set [0 ..< length s]. s ! j = p"
    using assms(3,4) by (auto simp: hd_conv_nth last_conv_nth
        intro: bexI[of _ 0] bexI[of _ "length s - 1"])
  then show "p \<in> dom (addLineVertices op interactions s verts)"
    unfolding addLineVertices_def using assms(1) by (intro fold_index_steps_dom) blast
qed

lemma fold_addLineVertices_parity:
  assumes "p \<in> interactions"
    and "\<forall>s \<in> set mls. \<not> isClosed s \<and> s \<noteq> [] \<and> (hd s = p \<or> last s = p)"
  shows "boundaryAt (fold (addLineVertices op interactions) mls verts) p op
           = (boundaryAt verts p op \<noteq> odd (length mls))"
    and "mls \<noteq> [] \<Longrightarrow> p \<in> dom (fold (addLineVertices op interactions) mls verts)"
  using assms(2)
proof (induction mls arbitrary: verts rule: rev_induct)
  case Nil
  { case 1 show ?case by simp }
  { case 2 then show ?case by simp }
next
  case (snoc s mls)
  { case 1
    then have s: "\<not> isClosed s" "s \<noteq> []" "hd s = p \<or> last s = p"
      and r: "\<forall>s \<in> set mls. \<not> isClosed s \<and> s \<noteq> [] \<and> (hd s = p \<or> last s = p)" by auto
    show ?case
      using addLineVertices_toggles(1)[OF assms(1) s] snoc.IH(1)[OF r] by auto }
  { case 2
    then have s: "\<not> isClosed s" "s \<noteq> []" "hd s = p \<or> last s = p" by auto
    show ?case using addLineVertices_toggles(2)[OF assms(1) s] by simp }
qed

text \<open>
  Claim C5, as amended. Adding a MultiLineString for operand \<open>op\<close> whose line strings
  are not closed and all have \<open>p\<close> as an end point, with \<open>p\<close> an interaction point,
  flips the boundary flag of the vertex at \<open>p\<close> for \<open>op\<close> once per line string: the
  flag afterwards is the flag before, negated when the number of line strings is odd.
  When the vertex was not flagged boundary for \<open>op\<close> before (in particular when the
  DCEL is new), its boundary flag afterwards is true exactly when the number of line
  strings is odd.
\<close>

theorem multiLineString_mod2_boundary:
  assumes "addMultiLineString mls op interactions d = Some (Inr d')"
    and "p \<in> interactions"
    and "\<forall>s \<in> set mls. \<not> isClosed s \<and> s \<noteq> [] \<and> (hd s = p \<or> last s = p)"
  shows "(boundaryAt (vertices d') p op = (boundaryAt (vertices d) p op \<noteq> odd (length mls)))
       \<and> (mls \<noteq> [] \<longrightarrow> p \<in> dom (vertices d'))
       \<and> (\<not> boundaryAt (vertices d) p op \<longrightarrow>
            (\<forall>v. vertices d' p = Some v \<longrightarrow> boundary (locations v op) = odd (length mls)))"
proof -
  let ?d1 = "d\<lparr>vertices := fold (addLineVertices op interactions) mls (vertices d)\<rparr>"
  have l: "locationsOf d' = locationsOf ?d1" by (rule addMultiLineString_locationsOf[OF assms(1)])
  have b: "boundaryAt (vertices d') p op = (boundaryAt (vertices d) p op \<noteq> odd (length mls))"
    using boundaryAt_locationsOf[OF l, of p op] fold_addLineVertices_parity(1)[OF assms(2,3)]
    by simp
  have dm: "p \<in> dom (vertices d')" if "mls \<noteq> []"
  proof -
    have "p \<in> dom (vertices ?d1)"
      using fold_addLineVertices_parity(2)[OF assms(2,3) that] by simp
    then show ?thesis using fun_cong[OF l, of p] by (auto simp: locationsOf_def)
  qed
  show ?thesis using b dm by (auto simp: boundaryAt_def)
qed

lemma three_lines_build:
  "\<exists>d'. addMultiLineString [[(0, 0), (1, 0)], [(0, 0), (0, 1)], [(- 1, 0), (0, 0)]] OperandA
           {(0, 0), (1, 0), (0, 1), (- 1, 0)} emptyDCEL = Some (Inr d')"
  by (simp add: eval_defs upt_rec)

theorem multiLineString_mod2_boundary_witness:
  "\<exists>d'. addMultiLineString [[(0, 0), (1, 0)], [(0, 0), (0, 1)], [(- 1, 0), (0, 0)]] OperandA
           {(0, 0), (1, 0), (0, 1), (- 1, 0)} emptyDCEL = Some (Inr d')
       \<and> (0, 0) \<in> {(0, 0), (1, 0), (0, 1), (- 1::real, 0::real)}
       \<and> (\<forall>s \<in> set [[(0, 0), (1, 0)], [(0, 0), (0, 1)], [(- 1, 0), (0, 0)]].
             \<not> isClosed s \<and> s \<noteq> [] \<and> (hd s = (0, 0) \<or> last s = (0, 0)))
       \<and> \<not> boundaryAt (vertices emptyDCEL) (0, 0) OperandA
       \<and> (\<exists>v. vertices d' (0, 0) = Some v \<and> boundary (locations v OperandA))"
proof -
  from three_lines_build obtain d' where
    a: "addMultiLineString [[(0, 0), (1, 0)], [(0, 0), (0, 1)], [(- 1, 0), (0, 0)]] OperandA
           {(0, 0), (1, 0), (0, 1), (- 1, 0)} emptyDCEL = Some (Inr d')" by blast
  have p: "(0, 0) \<in> {(0, 0), (1, 0), (0, 1), (- 1::real, 0::real)}" by simp
  have h: "\<forall>s \<in> set [[(0, 0), (1, 0)], [(0, 0), (0, 1)], [(- 1, 0), (0::real, 0::real)]].
             \<not> isClosed s \<and> s \<noteq> [] \<and> (hd s = (0, 0) \<or> last s = (0, 0))"
    by (simp add: isClosed_def)
  have e: "\<not> boundaryAt (vertices emptyDCEL) (0, 0) OperandA"
    by (simp add: boundaryAt_def emptyDCEL_def)
  from multiLineString_mod2_boundary[OF a p h] e
  have "\<exists>v. vertices d' (0, 0) = Some v \<and> boundary (locations v OperandA)" by auto
  with a p h e show ?thesis by blast
qed

text \<open>
  Claim C5, as stated, fails on a vertex that is already flagged boundary for the
  operand: a collection of a line string from \<open>p\<close> and a MultiLineString of one line
  string from \<open>p\<close>, added for the same operand, leaves the boundary flag at \<open>p\<close>
  false, with \<open>k = 1\<close>.
\<close>

theorem mod2_boundary_counterexample:
  "odd (length [[(0::real, 0::real), (0, 1)]])
   \<and> (case newDCELFromGeometry (\<lambda>_. 0)
           (GeometryCollection [LineString [(0, 0), (1, 0)], MultiLineString [[(0, 0), (0, 1)]]])
           [] OperandA {(0, 0), (1, 0), (0, 1)} of
        Some (Inr d) \<Rightarrow>
          (case vertices d (0, 0) of
             Some v \<Rightarrow> \<not> boundary (locations v OperandA)
           | None \<Rightarrow> False)
      | _ \<Rightarrow> False)"
  by (simp add: eval_defs newDCELFromGeometry_def upt_rec)

lemma bothWithin_locationsOf:
  assumes "locationsOf d' = locationsOf d" and "bothWithin I (vertices d)"
  shows "bothWithin I (vertices d')"
  unfolding bothWithin_def
proof (intro allI impI)
  fix xy v k
  assume a: "vertices d' xy = Some v \<and> boundary (locations v k) \<and> interior (locations v k)"
  from fun_cong[OF assms(1), of xy] a obtain w where "vertices d xy = Some w" "locations w = locations v"
    by (cases "vertices d xy") (auto simp: locationsOf_def)
  then show "xy \<in> I k" using assms(2) a unfolding bothWithin_def by metis
qed

lemma bothWithin_lineVertexStep:
  assumes "bothWithin I verts" and "\<not> ob \<longrightarrow> xy \<in> I op"
  shows "bothWithin I (lineVertexStep op ob xy verts)"
  using assms unfolding bothWithin_def lineVertexStep_def newVertex_def noLocation_def
  by (auto split: option.splits if_splits)

lemma bothWithin_lineVertexIndexStep:
  assumes "bothWithin I verts" and "lineInteriorCoords interactions s \<subseteq> I op" and "j < length s"
  shows "bothWithin I (lineVertexIndexStep op interactions s j verts)"
proof (cases "s ! j \<in> interactions")
  case False
  then show ?thesis using assms(1) by (simp add: lineVertexIndexStep_def)
next
  case True
  have "\<not> ((j = 0 \<or> j = length s - 1) \<and> \<not> isClosed s) \<longrightarrow> s ! j \<in> I op"
  proof
    assume nb: "\<not> ((j = 0 \<or> j = length s - 1) \<and> \<not> isClosed s)"
    have "j \<in> set (filter (\<lambda>j. s ! j \<in> interactions \<and> \<not> ((j = 0 \<or> j = length s - 1) \<and> \<not> isClosed s))
          [0 ..< length s])" using True nb assms(3) by simp
    then have "s ! j \<in> lineInteriorCoords interactions s"
      unfolding lineInteriorCoords_def by (metis (no_types, lifting) image_eqI set_map)
    then show "s ! j \<in> I op" using assms(2) by blast
  qed
  then show ?thesis using True assms(1)
    by (simp add: lineVertexIndexStep_def bothWithin_lineVertexStep)
qed

lemma bothWithin_addLineVertices:
  assumes "bothWithin I verts" and "lineInteriorCoords interactions s \<subseteq> I op"
  shows "bothWithin I (addLineVertices op interactions s verts)"
proof -
  have "set js \<subseteq> {..<length s} \<Longrightarrow> bothWithin I verts
      \<Longrightarrow> bothWithin I (fold (lineVertexIndexStep op interactions s) js verts)" for js verts
  proof (induction js arbitrary: verts)
    case Nil
    then show ?case by simp
  next
    case (Cons j js)
    have "bothWithin I (lineVertexIndexStep op interactions s j verts)"
      using Cons.prems assms(2) by (intro bothWithin_lineVertexIndexStep) auto
    then show ?case using Cons by simp
  qed
  from this[of "[0 ..< length s]" verts] assms(1) show ?thesis
    by (simp add: addLineVertices_def subset_iff)
qed

lemma bothWithin_fold_addLineVertices:
  assumes "bothWithin I verts" and "\<forall>s \<in> set mls. lineInteriorCoords interactions s \<subseteq> I op"
  shows "bothWithin I (fold (addLineVertices op interactions) mls verts)"
  using assms
proof (induction mls arbitrary: verts)
  case Nil
  then show ?case by simp
next
  case (Cons s mls)
  have "bothWithin I (addLineVertices op interactions s verts)"
    using Cons.prems by (intro bothWithin_addLineVertices) auto
  then show ?case using Cons by simp
qed

lemma bothWithin_pointStep:
  assumes "bothWithin I verts" and "set_option pt \<subseteq> I op"
  shows "bothWithin I (pointStep op pt verts)"
  using assms unfolding bothWithin_def pointStep_def newVertex_def noLocation_def Let_def
  by (auto split: option.splits if_splits)

lemma bothWithin_fold_pointStep:
  assumes "bothWithin I verts" and "\<forall>pt \<in> set mp. set_option pt \<subseteq> I op"
  shows "bothWithin I (fold (pointStep op) mp verts)"
  using assms
proof (induction mp arbitrary: verts)
  case Nil
  then show ?case by simp
next
  case (Cons pt mp)
  have "bothWithin I (pointStep op pt verts)"
    using Cons.prems by (intro bothWithin_pointStep) auto
  then show ?case using Cons by simp
qed

lemma bothWithin_ringVertexStep:
  assumes "bothWithin I verts"
  shows "bothWithin I (ringVertexStep op interactions xy verts)"
  using assms
  unfolding bothWithin_def ringVertexStep_def newVertex_def noLocation_def newLocationsOnBoundary_def
  by (auto split: option.splits if_splits)

lemma bothWithin_populateRingVertices:
  assumes "bothWithin I (vertices d)"
  shows "bothWithin I (vertices (populateRingVertices op interactions rings d))"
proof -
  have ring: "bothWithin I verts \<Longrightarrow> bothWithin I (fold (ringVertexStep op interactions) ring verts)"
    for ring verts
    by (induction ring arbitrary: verts) (simp_all add: bothWithin_ringVertexStep)
  have "bothWithin I verts \<Longrightarrow>
      bothWithin I (fold (\<lambda>ring. fold (ringVertexStep op interactions) ring) rings verts)" for verts
    by (induction rings arbitrary: verts) (simp_all add: ring)
  then show ?thesis using assms by (simp add: populateRingVertices_def)
qed

lemma bothWithin_ensureVertex:
  assumes "bothWithin I (vertices d)"
  shows "bothWithin I (vertices (ensureVertex xy d))"
  using assms unfolding bothWithin_def ensureVertex_def newVertex_def noLocation_def
  by (auto split: option.splits if_splits)

lemma addMultiLineString_bothWithin:
  assumes "addMultiLineString mls op interactions d = Some (Inr d')"
    and "bothWithin I (vertices d)"
    and "\<forall>s \<in> set mls. lineInteriorCoords interactions s \<subseteq> I op"
  shows "bothWithin I (vertices d')"
proof (rule bothWithin_locationsOf[OF addMultiLineString_locationsOf[OF assms(1)]])
  show "bothWithin I (vertices (d\<lparr>vertices := fold (addLineVertices op interactions) mls (vertices d)\<rparr>))"
    using bothWithin_fold_addLineVertices[OF assms(2,3)] by simp
qed

lemma addRing_locationsOf:
  assumes "addRing op interactions ring d = Some (Inr d')"
  shows "locationsOf d' = locationsOf d"
proof -
  from assms obtain d1 ne where
    f: "forEachNonInteractingSegment ring interactions (ringSegment op) (d, []) = Some (Inr (d1, ne))"
    and d': "d' = d1\<lparr>halfEdges := halfEdges d1 @ linkRing (length (halfEdges d1)) ne\<rparr>"
    unfolding addRing_def by (auto split: option.splits sum.splits)
  have "(\<lambda>st. locationsOf (fst st) = locationsOf d) (d1, ne)"
  proof (rule forEach_invariant[OF f])
    show "locationsOf (fst (d, [])) = locationsOf d" by simp
  next
    fix seg and a b :: "doublyConnectedEdgeList \<times> halfEdgeRecord list"
    assume p: "locationsOf (fst a) = locationsOf d" and r: "ringSegment op seg a = Inr b"
    obtain da na where a: "a = (da, na)" by (cases a)
    obtain db nb where b: "b = (db, nb)" by (cases b)
    show "locationsOf (fst b) = locationsOf d"
      using ringSegment_locationsOf[OF r[unfolded a b]] p by (simp add: a b)
  qed
  then show ?thesis by (simp add: d')
qed

lemma addPolygon_bothWithin:
  assumes "addPolygon op interactions poly d = Some (Inr d')" and "bothWithin I (vertices d)"
  shows "bothWithin I (vertices d')"
proof (rule foldRes_invariant[where P = "\<lambda>d. bothWithin I (vertices d)",
        OF assms(1)[unfolded addPolygon_def Let_def]])
  show "bothWithin I (vertices (populateRingVertices op interactions (polygonRings poly) d))"
    using assms(2) by (rule bothWithin_populateRingVertices)
next
  fix x a b
  assume "bothWithin I (vertices a)" "addRing op interactions x a = Some (Inr b)"
  then show "bothWithin I (vertices b)"
    using addRing_locationsOf bothWithin_locationsOf by blast
qed

lemma addMultiPolygon_bothWithin:
  assumes "addMultiPolygon mp op interactions d = Some (Inr d')" and "bothWithin I (vertices d)"
  shows "bothWithin I (vertices d')"
proof (rule foldRes_invariant[where P = "\<lambda>d. bothWithin I (vertices d)",
          OF assms(1)[unfolded addMultiPolygon_def] assms(2)])
  fix x a b
  assume "bothWithin I (vertices a)" "addPolygon op interactions x a = Some (Inr b)"
  then show "bothWithin I (vertices b)" using addPolygon_bothWithin by blast
qed

lemma addMultiPoint_bothWithin:
  assumes "bothWithin I (vertices d)" and "\<forall>pt \<in> set mp. set_option pt \<subseteq> I op"
  shows "bothWithin I (vertices (addMultiPoint mp op d))"
  using bothWithin_fold_pointStep[OF assms] by (simp add: addMultiPoint_def)

lemma addGeometry_bothWithin:
  "addGeometry g op interactions d = Some (Inr d') \<Longrightarrow> bothWithin I (vertices d)
     \<Longrightarrow> interiorCoords g interactions \<subseteq> I op \<Longrightarrow> bothWithin I (vertices d')"
proof (induction g arbitrary: d d')
  case (Point pt)
  then show ?case using addMultiPoint_bothWithin[of I d "[pt]" op] by auto
next
  case (LineString s)
  then show ?case using addMultiLineString_bothWithin[of "[s]" op interactions d d' I] by auto
next
  case (Polygon poly)
  then show ?case using addMultiPolygon_bothWithin[of "[poly]" op interactions d d' I] by auto
next
  case (MultiPoint mp)
  then have "\<forall>pt \<in> set mp. set_option pt \<subseteq> I op" by auto
  then show ?case using MultiPoint addMultiPoint_bothWithin[of I d mp op] by auto
next
  case (MultiLineString mls)
  then have "\<forall>s \<in> set mls. lineInteriorCoords interactions s \<subseteq> I op" by auto
  then show ?case
    using MultiLineString addMultiLineString_bothWithin[of mls op interactions d d' I] by simp
next
  case (MultiPolygon mp)
  then show ?case using addMultiPolygon_bothWithin[of mp op interactions d d' I] by auto
next
  case (GeometryCollection gc)
  have f: "foldRes (\<lambda>g. addGeometry g op interactions) gc d = Some (Inr d')"
    using GeometryCollection.prems(1) by (simp add: foldRes_map)
  have sub: "\<And>g. g \<in> set gc \<Longrightarrow> interiorCoords g interactions \<subseteq> I op"
    using GeometryCollection.prems(3) by auto
  show ?case
  proof (rule foldRes_invariant[where P = "\<lambda>d. bothWithin I (vertices d)", OF f GeometryCollection.prems(2)])
    fix x a b
    assume "x \<in> set gc" "bothWithin I (vertices a)" "addGeometry x op interactions a = Some (Inr b)"
    then show "bothWithin I (vertices b)" using GeometryCollection.IH sub by blast
  qed
qed

lemma ghostSegment_bothWithin:
  assumes "ghostSegment bearing op segment (d, edges) = Inr (d', edges')"
    and "bothWithin I (vertices d)"
  shows "bothWithin I (vertices d')"
  using assms(1)
proof (cases rule: ghostSegment_Inr)
  case (skip startXY endXY)
  then show ?thesis using assms(2) by (simp add: bothWithin_ensureVertex)
next
  case (add startXY endXY)
  show ?thesis
    by (rule bothWithin_locationsOf[OF addGhostLine_locationsOf[OF add(3)]])
       (simp add: bothWithin_ensureVertex assms(2))
qed

lemma addGhosts_bothWithin:
  assumes "addGhosts bearing mls op interactions d = Some (Inr d')" and "bothWithin I (vertices d)"
  shows "bothWithin I (vertices d')"
proof -
  from assms(1) obtain edges where
    f: "foldRes (\<lambda>s. forEachNonInteractingSegment s interactions (ghostSegment bearing op)) mls
          (d, fold insertEdge (halfEdges d) {}) = Some (Inr (d', edges))"
    unfolding addGhosts_def by (auto split: option.splits sum.splits)
  have "(\<lambda>st. bothWithin I (vertices (fst st))) (d', edges)"
  proof (rule foldRes_invariant[OF f])
    show "bothWithin I (vertices (fst (d, fold insertEdge (halfEdges d) {})))" using assms(2) by simp
  next
    fix s and a b :: "doublyConnectedEdgeList \<times> edgeSet"
    assume p: "bothWithin I (vertices (fst a))"
      and r: "forEachNonInteractingSegment s interactions (ghostSegment bearing op) a = Some (Inr b)"
    show "bothWithin I (vertices (fst b))"
    proof (rule forEach_invariant[OF r, where P = "\<lambda>st. bothWithin I (vertices (fst st))"])
      show "bothWithin I (vertices (fst a))" by (rule p)
    next
      fix seg and u v :: "doublyConnectedEdgeList \<times> edgeSet"
      assume q: "bothWithin I (vertices (fst u))" and t: "ghostSegment bearing op seg u = Inr v"
      obtain du eu where u: "u = (du, eu)" by (cases u)
      obtain dv ev where v: "v = (dv, ev)" by (cases v)
      show "bothWithin I (vertices (fst v))"
        using ghostSegment_bothWithin[OF t[unfolded u v]] q by (simp add: u v)
    qed
  qed
  then show ?thesis by simp
qed

lemma applyAddition_bothWithin:
  assumes "applyAddition bearing interactions a d = Some (Inr d')"
    and "bothWithin (interiorCoordsOf interactions additions) (vertices d)"
    and "a \<in> set additions"
  shows "bothWithin (interiorCoordsOf interactions additions) (vertices d')"
proof (cases a)
  case (AddGeometry g op)
  have "interiorCoords g interactions \<subseteq> interiorCoordsOf interactions additions op"
    unfolding interiorCoordsOf_def using assms(3) AddGeometry by force
  then show ?thesis
    using assms(1,2) AddGeometry
      addGeometry_bothWithin[of g op interactions d d' "interiorCoordsOf interactions additions"]
    by (simp add: applyAddition_def)
next
  case (AddGhosts mls op)
  then show ?thesis
    using assms(1,2)
      addGhosts_bothWithin[of bearing mls op interactions d d' "interiorCoordsOf interactions additions"]
    by (simp add: applyAddition_def)
qed

lemma boundaryWithin_locationsOf:
  assumes "locationsOf d' = locationsOf d" and "boundaryWithin B (vertices d)"
  shows "boundaryWithin B (vertices d')"
  unfolding boundaryWithin_def
proof (intro allI impI)
  fix xy v k
  assume a: "vertices d' xy = Some v \<and> boundary (locations v k)"
  from fun_cong[OF assms(1), of xy] a obtain w where "vertices d xy = Some w" "locations w = locations v"
    by (cases "vertices d xy") (auto simp: locationsOf_def)
  then show "xy \<in> B k" using assms(2) a unfolding boundaryWithin_def by metis
qed

lemma boundaryWithin_lineVertexStep:
  assumes "boundaryWithin B verts" and "ob \<longrightarrow> xy \<in> B op"
  shows "boundaryWithin B (lineVertexStep op ob xy verts)"
  using assms unfolding boundaryWithin_def lineVertexStep_def newVertex_def noLocation_def
  by (auto split: option.splits if_splits)

lemma boundaryWithin_lineVertexIndexStep:
  assumes "boundaryWithin B verts" and "lineBoundaryCoords interactions s \<subseteq> B op" and "j < length s"
  shows "boundaryWithin B (lineVertexIndexStep op interactions s j verts)"
proof (cases "s ! j \<in> interactions")
  case False
  then show ?thesis using assms(1) by (simp add: lineVertexIndexStep_def)
next
  case True
  have "((j = 0 \<or> j = length s - 1) \<and> \<not> isClosed s) \<longrightarrow> s ! j \<in> B op"
  proof
    assume nb: "(j = 0 \<or> j = length s - 1) \<and> \<not> isClosed s"
    have "j \<in> set (filter (\<lambda>j. s ! j \<in> interactions \<and> (j = 0 \<or> j = length s - 1) \<and> \<not> isClosed s)
          [0 ..< length s])" using True nb assms(3) by simp
    then have "s ! j \<in> lineBoundaryCoords interactions s"
      unfolding lineBoundaryCoords_def by (metis (no_types, lifting) image_eqI set_map)
    then show "s ! j \<in> B op" using assms(2) by blast
  qed
  then show ?thesis using True assms(1)
    by (simp add: lineVertexIndexStep_def boundaryWithin_lineVertexStep)
qed

lemma boundaryWithin_addLineVertices:
  assumes "boundaryWithin B verts" and "lineBoundaryCoords interactions s \<subseteq> B op"
  shows "boundaryWithin B (addLineVertices op interactions s verts)"
proof -
  have "set js \<subseteq> {..<length s} \<Longrightarrow> boundaryWithin B verts
      \<Longrightarrow> boundaryWithin B (fold (lineVertexIndexStep op interactions s) js verts)" for js verts
  proof (induction js arbitrary: verts)
    case Nil
    then show ?case by simp
  next
    case (Cons j js)
    have "boundaryWithin B (lineVertexIndexStep op interactions s j verts)"
      using Cons.prems assms(2) by (intro boundaryWithin_lineVertexIndexStep) auto
    then show ?case using Cons by simp
  qed
  from this[of "[0 ..< length s]" verts] assms(1) show ?thesis
    by (simp add: addLineVertices_def subset_iff)
qed

lemma boundaryWithin_fold_addLineVertices:
  assumes "boundaryWithin B verts" and "\<forall>s \<in> set mls. lineBoundaryCoords interactions s \<subseteq> B op"
  shows "boundaryWithin B (fold (addLineVertices op interactions) mls verts)"
  using assms
proof (induction mls arbitrary: verts)
  case Nil
  then show ?case by simp
next
  case (Cons s mls)
  have "boundaryWithin B (addLineVertices op interactions s verts)"
    using Cons.prems by (intro boundaryWithin_addLineVertices) auto
  then show ?case using Cons by simp
qed

lemma boundaryWithin_pointStep:
  assumes "boundaryWithin B verts"
  shows "boundaryWithin B (pointStep op pt verts)"
  using assms unfolding boundaryWithin_def pointStep_def newVertex_def noLocation_def Let_def
  by (auto split: option.splits if_splits)

lemma boundaryWithin_fold_pointStep:
  assumes "boundaryWithin B verts"
  shows "boundaryWithin B (fold (pointStep op) mp verts)"
  using assms by (induction mp arbitrary: verts) (simp_all add: boundaryWithin_pointStep)

lemma boundaryWithin_ringVertexStep:
  assumes "boundaryWithin B verts" and "xy \<in> interactions \<longrightarrow> xy \<in> B op"
  shows "boundaryWithin B (ringVertexStep op interactions xy verts)"
  using assms
  unfolding boundaryWithin_def ringVertexStep_def newVertex_def noLocation_def newLocationsOnBoundary_def
  by (auto split: option.splits if_splits)

lemma boundaryWithin_populateRingVertices:
  assumes "boundaryWithin B (vertices d)" and "ringCoords interactions rings \<subseteq> B op"
  shows "boundaryWithin B (vertices (populateRingVertices op interactions rings d))"
proof -
  have ring: "boundaryWithin B verts \<Longrightarrow> set ring \<inter> interactions \<subseteq> B op
      \<Longrightarrow> boundaryWithin B (fold (ringVertexStep op interactions) ring verts)" for ring verts
  proof (induction ring arbitrary: verts)
    case Nil
    then show ?case by simp
  next
    case (Cons xy ring)
    have "boundaryWithin B (ringVertexStep op interactions xy verts)"
      using Cons.prems by (intro boundaryWithin_ringVertexStep) auto
    moreover have "set ring \<inter> interactions \<subseteq> B op" using Cons.prems(2) by auto
    ultimately show ?case using Cons.IH by simp
  qed
  have "boundaryWithin B verts \<Longrightarrow> \<Union> (set (map set rs)) \<inter> interactions \<subseteq> B op \<Longrightarrow>
      boundaryWithin B (fold (\<lambda>ring. fold (ringVertexStep op interactions) ring) rs verts)" for verts rs
  proof (induction rs arbitrary: verts)
    case Nil
    then show ?case by simp
  next
    case (Cons r rs)
    have "boundaryWithin B (fold (ringVertexStep op interactions) r verts)"
      using Cons.prems by (intro ring) auto
    moreover have "\<Union> (set (map set rs)) \<inter> interactions \<subseteq> B op" using Cons.prems(2) by auto
    ultimately show ?case using Cons.IH by simp
  qed
  then show ?thesis using assms by (simp add: populateRingVertices_def ringCoords_def)
qed

lemma boundaryWithin_ensureVertex:
  assumes "boundaryWithin B (vertices d)"
  shows "boundaryWithin B (vertices (ensureVertex xy d))"
  using assms unfolding boundaryWithin_def ensureVertex_def newVertex_def noLocation_def
  by (auto split: option.splits if_splits)

lemma addMultiLineString_boundaryWithin:
  assumes "addMultiLineString mls op interactions d = Some (Inr d')"
    and "boundaryWithin B (vertices d)"
    and "\<forall>s \<in> set mls. lineBoundaryCoords interactions s \<subseteq> B op"
  shows "boundaryWithin B (vertices d')"
proof (rule boundaryWithin_locationsOf[OF addMultiLineString_locationsOf[OF assms(1)]])
  show "boundaryWithin B (vertices (d\<lparr>vertices := fold (addLineVertices op interactions) mls (vertices d)\<rparr>))"
    using boundaryWithin_fold_addLineVertices[OF assms(2,3)] by simp
qed

lemma ringCoords_polygonRings: "ringCoords interactions (polygonRings poly) = ringCoords interactions poly"
  by (cases poly) (simp_all add: polygonRings_def ringCoords_def)

lemma ringCoords_forceCCWPolygon:
  "ringCoords interactions (forceCCWPolygon poly) = ringCoords interactions poly"
proof -
  have "set (if c then rev r else r) = set r" for c and r :: "XY list" by simp
  then have "\<Union> (set (map set (forceCCWPolygon poly))) = \<Union> (set (map set poly))"
    by (cases poly) (simp_all add: forceCCWPolygon_def)
  then show ?thesis by (simp add: ringCoords_def)
qed

lemma addPolygon_boundaryWithin:
  assumes "addPolygon op interactions poly d = Some (Inr d')" and "boundaryWithin B (vertices d)"
    and "ringCoords interactions poly \<subseteq> B op"
  shows "boundaryWithin B (vertices d')"
proof (rule foldRes_invariant[where P = "\<lambda>d. boundaryWithin B (vertices d)",
        OF assms(1)[unfolded addPolygon_def Let_def]])
  show "boundaryWithin B (vertices (populateRingVertices op interactions (polygonRings poly) d))"
    using assms(2,3) by (intro boundaryWithin_populateRingVertices) (simp_all add: ringCoords_polygonRings)
next
  fix x a b
  assume "boundaryWithin B (vertices a)" "addRing op interactions x a = Some (Inr b)"
  then show "boundaryWithin B (vertices b)"
    using addRing_locationsOf boundaryWithin_locationsOf by blast
qed

lemma addMultiPolygon_boundaryWithin:
  assumes "addMultiPolygon mp op interactions d = Some (Inr d')" and "boundaryWithin B (vertices d)"
    and "\<forall>poly \<in> set mp. ringCoords interactions poly \<subseteq> B op"
  shows "boundaryWithin B (vertices d')"
proof (rule foldRes_invariant[where P = "\<lambda>d. boundaryWithin B (vertices d)",
          OF assms(1)[unfolded addMultiPolygon_def] assms(2)])
  fix x a b
  assume x: "x \<in> set (forceCCW mp)" and "boundaryWithin B (vertices a)"
    "addPolygon op interactions x a = Some (Inr b)"
  moreover have "ringCoords interactions x \<subseteq> B op"
  proof -
    from x obtain y where y: "y \<in> set mp" "x = forceCCWPolygon y" by (auto simp: forceCCW_def)
    then show ?thesis using assms(3) by (simp add: ringCoords_forceCCWPolygon)
  qed
  ultimately show "boundaryWithin B (vertices b)" using addPolygon_boundaryWithin by blast
qed

lemma addMultiPoint_boundaryWithin:
  assumes "boundaryWithin B (vertices d)"
  shows "boundaryWithin B (vertices (addMultiPoint mp op d))"
  using boundaryWithin_fold_pointStep[OF assms] by (simp add: addMultiPoint_def)

lemma addGeometry_boundaryWithin:
  "addGeometry g op interactions d = Some (Inr d') \<Longrightarrow> boundaryWithin B (vertices d)
     \<Longrightarrow> boundaryCoords g interactions \<subseteq> B op \<Longrightarrow> boundaryWithin B (vertices d')"
proof (induction g arbitrary: d d')
  case (Point pt)
  then show ?case using addMultiPoint_boundaryWithin[of B d "[pt]" op] by auto
next
  case (LineString s)
  then show ?case using addMultiLineString_boundaryWithin[of "[s]" op interactions d d' B] by auto
next
  case (Polygon poly)
  then show ?case using addMultiPolygon_boundaryWithin[of "[poly]" op interactions d d' B] by auto
next
  case (MultiPoint mp)
  then show ?case using addMultiPoint_boundaryWithin[of B d mp op] by auto
next
  case (MultiLineString mls)
  then have "\<forall>s \<in> set mls. lineBoundaryCoords interactions s \<subseteq> B op" by auto
  then show ?case
    using MultiLineString addMultiLineString_boundaryWithin[of mls op interactions d d' B] by simp
next
  case (MultiPolygon mp)
  then have "\<forall>poly \<in> set mp. ringCoords interactions poly \<subseteq> B op" by auto
  then show ?case
    using MultiPolygon addMultiPolygon_boundaryWithin[of mp op interactions d d' B] by simp
next
  case (GeometryCollection gc)
  have f: "foldRes (\<lambda>g. addGeometry g op interactions) gc d = Some (Inr d')"
    using GeometryCollection.prems(1) by (simp add: foldRes_map)
  have sub: "\<And>g. g \<in> set gc \<Longrightarrow> boundaryCoords g interactions \<subseteq> B op"
    using GeometryCollection.prems(3) by auto
  show ?case
  proof (rule foldRes_invariant[where P = "\<lambda>d. boundaryWithin B (vertices d)", OF f GeometryCollection.prems(2)])
    fix x a b
    assume "x \<in> set gc" "boundaryWithin B (vertices a)" "addGeometry x op interactions a = Some (Inr b)"
    then show "boundaryWithin B (vertices b)" using GeometryCollection.IH sub by blast
  qed
qed

lemma ghostSegment_boundaryWithin:
  assumes "ghostSegment bearing op segment (d, edges) = Inr (d', edges')"
    and "boundaryWithin B (vertices d)"
  shows "boundaryWithin B (vertices d')"
  using assms(1)
proof (cases rule: ghostSegment_Inr)
  case (skip startXY endXY)
  then show ?thesis using assms(2) by (simp add: boundaryWithin_ensureVertex)
next
  case (add startXY endXY)
  show ?thesis
    by (rule boundaryWithin_locationsOf[OF addGhostLine_locationsOf[OF add(3)]])
       (simp add: boundaryWithin_ensureVertex assms(2))
qed

lemma addGhosts_boundaryWithin:
  assumes "addGhosts bearing mls op interactions d = Some (Inr d')" and "boundaryWithin B (vertices d)"
  shows "boundaryWithin B (vertices d')"
proof -
  from assms(1) obtain edges where
    f: "foldRes (\<lambda>s. forEachNonInteractingSegment s interactions (ghostSegment bearing op)) mls
          (d, fold insertEdge (halfEdges d) {}) = Some (Inr (d', edges))"
    unfolding addGhosts_def by (auto split: option.splits sum.splits)
  have "(\<lambda>st. boundaryWithin B (vertices (fst st))) (d', edges)"
  proof (rule foldRes_invariant[OF f])
    show "boundaryWithin B (vertices (fst (d, fold insertEdge (halfEdges d) {})))" using assms(2) by simp
  next
    fix s and a b :: "doublyConnectedEdgeList \<times> edgeSet"
    assume p: "boundaryWithin B (vertices (fst a))"
      and r: "forEachNonInteractingSegment s interactions (ghostSegment bearing op) a = Some (Inr b)"
    show "boundaryWithin B (vertices (fst b))"
    proof (rule forEach_invariant[OF r, where P = "\<lambda>st. boundaryWithin B (vertices (fst st))"])
      show "boundaryWithin B (vertices (fst a))" by (rule p)
    next
      fix seg and u v :: "doublyConnectedEdgeList \<times> edgeSet"
      assume q: "boundaryWithin B (vertices (fst u))" and t: "ghostSegment bearing op seg u = Inr v"
      obtain du eu where u: "u = (du, eu)" by (cases u)
      obtain dv ev where v: "v = (dv, ev)" by (cases v)
      show "boundaryWithin B (vertices (fst v))"
        using ghostSegment_boundaryWithin[OF t[unfolded u v]] q by (simp add: u v)
    qed
  qed
  then show ?thesis by simp
qed

lemma applyAddition_boundaryWithin:
  assumes "applyAddition bearing interactions a d = Some (Inr d')"
    and "boundaryWithin (boundaryCoordsOf interactions additions) (vertices d)"
    and "a \<in> set additions"
  shows "boundaryWithin (boundaryCoordsOf interactions additions) (vertices d')"
proof (cases a)
  case (AddGeometry g op)
  have "boundaryCoords g interactions \<subseteq> boundaryCoordsOf interactions additions op"
    unfolding boundaryCoordsOf_def using assms(3) AddGeometry by force
  then show ?thesis
    using assms(1,2) AddGeometry
      addGeometry_boundaryWithin[of g op interactions d d' "boundaryCoordsOf interactions additions"]
    by (simp add: applyAddition_def)
next
  case (AddGhosts mls op)
  then show ?thesis
    using assms(1,2)
      addGhosts_boundaryWithin[of bearing mls op interactions d d' "boundaryCoordsOf interactions additions"]
    by (simp add: applyAddition_def)
qed

lemma buildDCEL_bothWithin:
  assumes "buildDCEL bearing interactions additions = Some (Inr d)"
  shows "bothWithin (interiorCoordsOf interactions additions) (vertices d)"
proof (rule foldRes_invariant[where P = "\<lambda>d. bothWithin (interiorCoordsOf interactions additions) (vertices d)",
      OF assms[unfolded buildDCEL_def]])
  show "bothWithin (interiorCoordsOf interactions additions) (vertices emptyDCEL)"
    by (simp add: bothWithin_def emptyDCEL_def)
next
  fix x a b
  assume "x \<in> set additions" "bothWithin (interiorCoordsOf interactions additions) (vertices a)"
    "applyAddition bearing interactions x a = Some (Inr b)"
  then show "bothWithin (interiorCoordsOf interactions additions) (vertices b)"
    using applyAddition_bothWithin by blast
qed

lemma buildDCEL_boundaryWithin:
  assumes "buildDCEL bearing interactions additions = Some (Inr d)"
  shows "boundaryWithin (boundaryCoordsOf interactions additions) (vertices d)"
proof (rule foldRes_invariant[where P = "\<lambda>d. boundaryWithin (boundaryCoordsOf interactions additions) (vertices d)",
      OF assms[unfolded buildDCEL_def]])
  show "boundaryWithin (boundaryCoordsOf interactions additions) (vertices emptyDCEL)"
    by (simp add: boundaryWithin_def emptyDCEL_def)
next
  fix x a b
  assume "x \<in> set additions" "boundaryWithin (boundaryCoordsOf interactions additions) (vertices a)"
    "applyAddition bearing interactions x a = Some (Inr b)"
  then show "boundaryWithin (boundaryCoordsOf interactions additions) (vertices b)"
    using applyAddition_boundaryWithin by blast
qed

text \<open>
  Claim C1, as amended. In every DCEL produced by a sequence of Builder additions, the
  flags \<^verbatim>\<open>locations[k].boundary\<close> and \<^verbatim>\<open>locations[k].interior\<close> of a vertex are
  not both true, unless the geometries added for operand \<open>k\<close> visit the coordinate of
  the vertex in both roles: at a boundary position (a vertex of a polygon ring, or the
  first or last position of an open line string) and at an interior position (a point, or
  a position of a line string that is not the first or last of an open one), as an
  interaction point where it is on a ring or a line string.
\<close>

theorem built_dcel_flags_exclusive_unless_both_roles:
  assumes "buildDCEL bearing interactions additions = Some (Inr d)"
    and "vertices d xy = Some v"
    and "xy \<notin> interiorCoordsOf interactions additions k
         \<or> xy \<notin> boundaryCoordsOf interactions additions k"
  shows "\<not> (boundary (locations v k) \<and> interior (locations v k))"
proof
  assume f: "boundary (locations v k) \<and> interior (locations v k)"
  have "xy \<in> interiorCoordsOf interactions additions k"
    using buildDCEL_bothWithin[OF assms(1)] assms(2) f unfolding bothWithin_def by blast
  moreover have "xy \<in> boundaryCoordsOf interactions additions k"
    using buildDCEL_boundaryWithin[OF assms(1)] assms(2) f unfolding boundaryWithin_def by blast
  ultimately show False using assms(3) by blast
qed

lemma straight_line_build:
  "\<exists>d v. buildDCEL (\<lambda>_. 0) {(0, 0), (1, 0), (2, 0)}
            [AddGeometry (LineString [(0, 0), (1, 0), (2, 0)]) OperandA]
          = Some (Inr d) \<and> vertices d (1, 0) = Some v \<and> interior (locations v OperandA)"
  by (simp add: eval_defs upt_rec)

lemma straight_line_coords:
  "(1, 0) \<notin> boundaryCoordsOf {(0, 0), (1, 0), (2, 0)}
            [AddGeometry (LineString [(0, 0), (1, 0), (2, 0)]) OperandA] OperandA"
  by (simp add: boundaryCoordsOf_def lineBoundaryCoords_def isClosed_def upt_rec)

theorem built_dcel_flags_exclusive_unless_both_roles_witness:
  "\<exists>d v. buildDCEL (\<lambda>_. 0) {(0, 0), (1, 0), (2, 0)}
            [AddGeometry (LineString [(0, 0), (1, 0), (2, 0)]) OperandA]
          = Some (Inr d)
        \<and> vertices d (1, 0) = Some v
        \<and> (1, 0) \<notin> boundaryCoordsOf {(0, 0), (1, 0), (2, 0)}
            [AddGeometry (LineString [(0, 0), (1, 0), (2, 0)]) OperandA] OperandA
        \<and> interior (locations v OperandA)
        \<and> \<not> (boundary (locations v OperandA) \<and> interior (locations v OperandA))"
proof -
  from straight_line_build obtain d v where
    b: "buildDCEL (\<lambda>_. 0) {(0, 0), (1, 0), (2, 0)}
            [AddGeometry (LineString [(0, 0), (1, 0), (2, 0)]) OperandA]
          = Some (Inr d)" and v: "vertices d (1, 0) = Some v"
    and i: "interior (locations v OperandA)" by blast
  from built_dcel_flags_exclusive_unless_both_roles[OF b v disjI2[OF straight_line_coords]]
    b v i straight_line_coords
  show ?thesis by blast
qed

text \<open>
  Claim C1, as stated, fails: a line string that ends on an interior vertex of another
  line string of the same operand leaves that vertex with both flags true.
\<close>

theorem flags_exclusive_counterexample:
  "(case buildDCEL (\<lambda>_. 0) {(0, 0), (1, 0), (0, 1), (0, - 1)}
            [AddGeometry (MultiLineString [[(0, 0), (1, 0)], [(0, 1), (0, 0), (0, - 1)]]) OperandA] of
      Some (Inr d) \<Rightarrow>
        (case vertices d (0, 0) of
           Some v \<Rightarrow> boundary (locations v OperandA) \<and> interior (locations v OperandA)
         | None \<Rightarrow> False)
    | _ \<Rightarrow> False)"
  by (simp add: eval_defs upt_rec)

section \<open>The DCEL of a triangle\<close>

lemma ccw_triangle_distinct:
  assumes "0 < signedArea [a, b, c, a]"
  shows "a \<noteq> b" and "b \<noteq> c" and "a \<noteq> c"
proof -
  have s: "0 < (fst a * snd b - fst b * snd a) + (fst b * snd c - fst c * snd b)
               + (fst c * snd a - fst a * snd c)"
    using assms by (simp add: signedArea_def)
  show "a \<noteq> b" using s by (auto simp: algebra_simps)
  show "b \<noteq> c" using s by (auto simp: algebra_simps)
  show "a \<noteq> c" using s by (auto simp: algebra_simps)
qed

lemma triangle_segments:
  assumes "a \<in> interactions" "b \<in> interactions" "c \<in> interactions"
  shows "forEachNonInteractingSegment [a, b, c, a] interactions fn st
     = (case fn [a, b] st of Inl e \<Rightarrow> Some (Inl e) | Inr s1 \<Rightarrow>
        (case fn [b, c] s1 of Inl e \<Rightarrow> Some (Inl e) | Inr s2 \<Rightarrow>
        (case fn [c, a] s2 of Inl e \<Rightarrow> Some (Inl e) | Inr s3 \<Rightarrow> Some (Inr s3))))"
  using assms
  by (simp add: forEachNonInteractingSegment_def segmentLoop.simps slice_def findEnd_def upt_rec
        split: sum.splits)

text \<open>
  Claim C4. For a polygon whose only ring is the triangle \<open>a, b, c, a\<close> in
  counter-clockwise order, with the three corners in the interaction set, no ghost
  lines and operand 0, \<^verbatim>\<open>newDCELFromGeometry\<close> returns a DCEL with the three vertices
  \<open>a\<close>, \<open>b\<close>, \<open>c\<close> and six half-edges: the internal edges at the even positions
  and their twins, the external edges, at the odd ones. \<^verbatim>\<open>next\<close> runs
  \<open>0 \<rightarrow> 2 \<rightarrow> 4 \<rightarrow> 0\<close> through the internal edges and \<open>1 \<rightarrow> 5 \<rightarrow> 3 \<rightarrow> 1\<close> through
  the external ones, and \<^verbatim>\<open>srcFace[0]\<close> is true on the internal and false on the
  external edges.
\<close>

theorem ccw_triangle_dcel:
  assumes "0 < signedArea [a, b, c, a]" and "a \<in> interactions" and "b \<in> interactions"
    and "c \<in> interactions"
  shows "\<exists>d. newDCELFromGeometry bearing (Polygon [[a, b, c, a]]) [] OperandA interactions
                = Some (Inr d)
           \<and> dom (vertices d) = {a, b, c} \<and> card (dom (vertices d)) = 3
           \<and> length (halfEdges d) = 6
           \<and> map seq (halfEdges d) = [[a, b], [b, a], [b, c], [c, b], [c, a], [a, c]]
           \<and> map twin (halfEdges d) = [Some 1, Some 0, Some 3, Some 2, Some 5, Some 4]
           \<and> map nextE (halfEdges d) = [Some 2, Some 5, Some 4, Some 1, Some 0, Some 3]
           \<and> map prevE (halfEdges d) = [Some 4, Some 3, Some 0, Some 5, Some 2, Some 1]
           \<and> map (\<lambda>e. srcFace e OperandA) (halfEdges d) = [True, False, True, False, True, False]"
proof -
  note dist = ccw_triangle_distinct[OF assms(1)]
  have ccw: "\<not> signedArea [a, b, c, a] < 0" using assms(1) by simp
  have card3: "card {a, b, c} = 3" using dist by simp
  show ?thesis
    using dist ccw assms(2-4) card3
    by (simp add: newDCELFromGeometry_def addMultiPolygon_def forceCCW_def forceCCWPolygon_def
          addPolygon_def polygonRings_def populateRingVertices_def ringVertexStep_def
          addRing_def triangle_segments ringSegment_def linkRing_def linkStep_def
          addGhosts_def getXY_def reverseSequence_def appendIncident_def
          newHalfEdge_def newVertex_def setFlag_def emptyDCEL_def bindE_def Let_def
          upt_rec insert_commute)
qed

theorem ccw_triangle_dcel_witness:
  "0 < signedArea [(0, 0), (1, 0), (0, 1), (0, 0)]
   \<and> (0, 0) \<in> {(0, 0), (1, 0), (0::real, 1::real)}
   \<and> (1, 0) \<in> {(0, 0), (1, 0), (0::real, 1::real)}
   \<and> (0, 1) \<in> {(0, 0), (1, 0), (0::real, 1::real)}
   \<and> (\<exists>d. newDCELFromGeometry (\<lambda>_. 0) (Polygon [[(0, 0), (1, 0), (0, 1), (0, 0)]]) [] OperandA
                {(0, 0), (1, 0), (0, 1)} = Some (Inr d)
           \<and> card (dom (vertices d)) = 3
           \<and> length (halfEdges d) = 6
           \<and> map nextE (halfEdges d) = [Some 2, Some 5, Some 4, Some 1, Some 0, Some 3]
           \<and> map (\<lambda>e. srcFace e OperandA) (halfEdges d) = [True, False, True, False, True, False])"
proof -
  have s: "0 < signedArea [(0, 0), (1, 0), (0, 1), (0, 0)]" by (simp add: signedArea_def)
  from ccw_triangle_dcel[OF s, of "{(0, 0), (1, 0), (0, 1)}" "\<lambda>_. 0"] s
  show ?thesis by auto
qed


section \<open>The monotone chain and its hull\<close>

lemma xyLess_less: "xyLess a b \<longleftrightarrow> a < b"
  by (cases a; cases b) (auto simp: xyLess_def less_prod_def)

lemma turn_transitive:
  fixes a1 a2 b1 b2 c1 c2 :: real
  assumes b: "0 < b1 \<or> (b1 = 0 \<and> 0 < b2)"
    and a: "0 \<le> a1" "a1 = 0 \<longrightarrow> 0 \<le> a2"
    and c: "0 \<le> c1" "c1 = 0 \<longrightarrow> 0 \<le> c2"
    and q: "0 \<le> a1 * b2 - a2 * b1"
    and p: "0 \<le> b1 * c2 - b2 * c1"
  shows "0 \<le> a1 * c2 - a2 * c1"
proof (cases "0 < b1")
  case True
  have id: "b1 * (a1 * c2 - a2 * c1) = a1 * (b1 * c2 - b2 * c1) + c1 * (a1 * b2 - a2 * b1)"
    by (simp add: algebra_simps)
  have "0 \<le> a1 * (b1 * c2 - b2 * c1) + c1 * (a1 * b2 - a2 * b1)"
    using a(1) c(1) p q by (intro add_nonneg_nonneg mult_nonneg_nonneg)
  then have "0 \<le> b1 * (a1 * c2 - a2 * c1)" using id by simp
  then show ?thesis using True by (simp add: zero_le_mult_iff)
next
  case False
  then have b0: "b1 = 0" "0 < b2" using b by auto
  have "0 \<le> - (b2 * c1)" using p b0 by simp
  then have "b2 * c1 \<le> 0" by simp
  then have "c1 \<le> 0" using b0(2) by (simp add: mult_le_0_iff)
  then have c0: "c1 = 0" "0 \<le> c2" using c by auto
  show ?thesis using c0 a(1) by simp
qed

lemma turn_transitive_strict:
  fixes a1 a2 b1 b2 c1 c2 :: real
  assumes b: "0 < b1 \<or> (b1 = 0 \<and> 0 < b2)"
    and a: "0 < a1 \<or> (a1 = 0 \<and> 0 < a2)"
    and c: "0 < c1 \<or> (c1 = 0 \<and> 0 < c2)"
    and q: "0 \<le> a1 * b2 - a2 * b1"
    and p: "0 < b1 * c2 - b2 * c1"
  shows "0 < a1 * c2 - a2 * c1"
proof (cases "0 < b1")
  case True
  have id: "b1 * (a1 * c2 - a2 * c1) = a1 * (b1 * c2 - b2 * c1) + c1 * (a1 * b2 - a2 * b1)"
    by (simp add: algebra_simps)
  have c1: "0 \<le> c1" using c by auto
  show ?thesis
  proof (cases "0 < a1")
    case a1: True
    have "0 < a1 * (b1 * c2 - b2 * c1)" using a1 p by simp
    moreover have "0 \<le> c1 * (a1 * b2 - a2 * b1)" using c1 q by simp
    ultimately have "0 < b1 * (a1 * c2 - a2 * c1)" using id by simp
    then show ?thesis using True by (simp add: zero_less_mult_iff)
  next
    case False
    then have a0: "a1 = 0" "0 < a2" using a by auto
    have "0 \<le> - (a2 * b1)" using q a0 by simp
    then have "a2 * b1 \<le> 0" by simp
    then have "b1 \<le> 0" using a0(2) by (simp add: mult_le_0_iff)
    then show ?thesis using True by simp
  qed
next
  case False
  then have b0: "b1 = 0" "0 < b2" using b by auto
  have "0 < - (b2 * c1)" using p b0 by simp
  then have "b2 * c1 < 0" by simp
  then have "c1 < 0" using b0(2) by (simp add: mult_less_0_iff)
  then show ?thesis using c by auto
qed

lemma less_XY: "(a::XY) < b \<longleftrightarrow> 0 < fst b - fst a \<or> (fst b - fst a = 0 \<and> 0 < snd b - snd a)"
  by (cases a; cases b) (auto simp: less_prod_def)

lemma le_XY: "(a::XY) \<le> b \<longleftrightarrow> 0 < fst b - fst a \<or> (fst b - fst a = 0 \<and> 0 \<le> snd b - snd a)"
  by (cases a; cases b) (auto simp: less_eq_prod_def)

lemma le_XY_D: "(a::XY) \<le> b \<Longrightarrow> 0 \<le> fst b - fst a \<and> (fst b - fst a = 0 \<longrightarrow> 0 \<le> snd b - snd a)"
  by (auto simp: le_XY)

lemma crossProduct_swap: "crossProduct c b a = - crossProduct a b c"
  by (simp add: crossProduct_def algebra_simps)

lemma crossProduct_same [simp]: "crossProduct p q q = 0" "crossProduct p p q = 0" "crossProduct p q p = 0"
  by (simp_all add: crossProduct_def algebra_simps)

lemma below_edge_first:
  assumes "p < q" and "q \<le> r" and "crossProduct p q r \<le> 0" and "p \<le> w"
    and "0 \<le> crossProduct p q w"
  shows "0 \<le> crossProduct p r w"
proof -
  have pr: "p \<le> r" using assms(1,2) by simp
  have "0 \<le> (fst r - fst p) * (snd w - snd p) - (snd r - snd p) * (fst w - fst p)"
  proof (rule turn_transitive[where ?b1.0 = "fst q - fst p" and ?b2.0 = "snd q - snd p"])
    show "0 < fst q - fst p \<or> fst q - fst p = 0 \<and> 0 < snd q - snd p"
      using assms(1) by (simp add: less_XY)
    show "0 \<le> fst r - fst p" "fst r - fst p = 0 \<longrightarrow> 0 \<le> snd r - snd p"
      using le_XY_D[OF pr] by auto
    show "0 \<le> fst w - fst p" "fst w - fst p = 0 \<longrightarrow> 0 \<le> snd w - snd p"
      using le_XY_D[OF assms(4)] by auto
    show "0 \<le> (fst r - fst p) * (snd q - snd p) - (snd r - snd p) * (fst q - fst p)"
      using assms(3) by (simp add: crossProduct_def algebra_simps)
    show "0 \<le> (fst q - fst p) * (snd w - snd p) - (snd q - snd p) * (fst w - fst p)"
      using assms(5) by (simp add: crossProduct_def algebra_simps)
  qed
  then show ?thesis by (simp add: crossProduct_def)
qed

lemma below_edge_second:
  assumes "p < q" and "q \<le> r" and "crossProduct p q r \<le> 0" and "q \<le> w" and "w \<le> r"
    and "0 \<le> crossProduct q r w"
  shows "0 \<le> crossProduct p r w"
proof (cases "q = r")
  case True
  then have "w = r" using assms(4,5) by simp
  then show ?thesis by simp
next
  case False
  then have qr: "q < r" using assms(2) by simp
  have pr: "p < r" using assms(1,2) by simp
  have "0 \<le> (fst r - fst w) * (snd r - snd p) - (snd r - snd w) * (fst r - fst p)"
  proof (rule turn_transitive[where ?b1.0 = "fst r - fst q" and ?b2.0 = "snd r - snd q"])
    show "0 < fst r - fst q \<or> fst r - fst q = 0 \<and> 0 < snd r - snd q"
      using qr by (simp add: less_XY)
    show "0 \<le> fst r - fst w" "fst r - fst w = 0 \<longrightarrow> 0 \<le> snd r - snd w"
      using le_XY_D[OF assms(5)] by auto
    show "0 \<le> fst r - fst p" "fst r - fst p = 0 \<longrightarrow> 0 \<le> snd r - snd p"
      using le_XY_D[OF less_imp_le[OF pr]] by auto
    show "0 \<le> (fst r - fst w) * (snd r - snd q) - (snd r - snd w) * (fst r - fst q)"
      using assms(6) by (simp add: crossProduct_def algebra_simps)
    show "0 \<le> (fst r - fst q) * (snd r - snd p) - (snd r - snd q) * (fst r - fst p)"
      using assms(3) by (simp add: crossProduct_def algebra_simps)
  qed
  then show ?thesis by (simp add: crossProduct_def algebra_simps)
qed

lemma left_of_next_edge:
  assumes "p < q" and "q < t" and "0 < crossProduct p q t" and "r < q"
    and "0 \<le> crossProduct p q r"
  shows "0 < crossProduct q t r"
proof -
  have "0 < (fst q - fst r) * (snd t - snd q) - (snd q - snd r) * (fst t - fst q)"
  proof (rule turn_transitive_strict[where ?b1.0 = "fst q - fst p" and ?b2.0 = "snd q - snd p"])
    show "0 < fst q - fst p \<or> fst q - fst p = 0 \<and> 0 < snd q - snd p"
      using assms(1) by (simp add: less_XY)
    show "0 < fst q - fst r \<or> fst q - fst r = 0 \<and> 0 < snd q - snd r"
      using assms(4) by (simp add: less_XY)
    show "0 < fst t - fst q \<or> fst t - fst q = 0 \<and> 0 < snd t - snd q"
      using assms(2) by (simp add: less_XY)
    show "0 \<le> (fst q - fst r) * (snd q - snd p) - (snd q - snd r) * (fst q - fst p)"
      using assms(5) by (simp add: crossProduct_def algebra_simps)
    show "0 < (fst q - fst p) * (snd t - snd q) - (snd q - snd p) * (fst t - fst q)"
      using assms(3) by (simp add: crossProduct_def algebra_simps)
  qed
  then show ?thesis by (simp add: crossProduct_def algebra_simps)
qed

lemma exactOrientation_left: "exactOrientation a b c = leftTurn \<longleftrightarrow> 0 < crossProduct a b c"
  by (simp add: exactOrientation_def)

lemma popR_suffix: "\<exists>ys. R = ys @ popR R r"
proof (induction R r rule: popR.induct)
  case (1 q p rest r)
  show ?case
  proof (cases "exactOrientation p q r \<noteq> leftTurn")
    case True
    with 1 obtain ys where "p # rest = ys @ popR (p # rest) r" by blast
    then have "q # p # rest = (q # ys) @ popR (q # p # rest) r" using True by simp
    then show ?thesis by blast
  next
    case False
    then show ?thesis by (intro exI[of _ "[]"]) simp
  qed
qed (auto intro: exI[of _ "[]"])

lemma popR_nonempty: "R \<noteq> [] \<Longrightarrow> popR R r \<noteq> []"
  by (induction R r rule: popR.induct) auto

lemma popR_last: "R \<noteq> [] \<Longrightarrow> last (popR R r) = last R"
  by (induction R r rule: popR.induct) auto

lemma popR_set: "set (popR R r) \<subseteq> set R"
  using popR_suffix[of R r] by (metis set_append sup_ge2)

lemma popR_sorted: "sorted_wrt (>) R \<Longrightarrow> sorted_wrt (>) (popR R r)"
  using popR_suffix[of R r] by (metis sorted_wrt_append)

lemma convexR_tail: "convexR (q # R) \<Longrightarrow> convexR R"
  by (cases R rule: convexR.cases) auto

lemma popR_convex: "convexR R \<Longrightarrow> convexR (popR R r)"
proof (induction R r rule: popR.induct)
  case (1 q p rest r)
  then show ?case using convexR_tail[of q "p # rest"] by auto
qed auto

lemma popR_top_left: "popR R r = q # p # rest \<Longrightarrow> 0 < crossProduct p q r"
  by (induction R r rule: popR.induct) (auto simp: exactOrientation_left split: if_splits)

lemma popR_hd_less:
  assumes "sorted_wrt (>) R" and "2 \<le> length R" and "hd R \<le> r"
  shows "hd (popR R r) < r"
proof -
  obtain q R' where R': "R = q # R'" using assms(2) by (cases R) auto
  obtain p rest where "R' = p # rest" using assms(2) R' by (cases R') auto
  then have R: "R = q # p # rest" using R' by simp
  show ?thesis
  proof (cases "exactOrientation p q r \<noteq> leftTurn")
    case True
    obtain ys where s: "p # rest = ys @ popR (p # rest) r" using popR_suffix by blast
    have ne: "popR (p # rest) r \<noteq> []" by (rule popR_nonempty) simp
    then have "hd (popR (p # rest) r) \<in> set (p # rest)"
      using popR_set[of "p # rest" r] by (meson hd_in_set subsetD)
    then have "hd (popR (p # rest) r) < q" using assms(1) R by auto
    then show ?thesis using True R assms(3) by simp
  next
    case False
    then have "0 < crossProduct p q r" by (simp add: exactOrientation_left)
    then have "q \<noteq> r" by auto
    then show ?thesis using False R assms(3) by simp
  qed
qed

lemma popR_above:
  assumes "sorted_wrt (>) R" and "R \<noteq> []" and "hd R \<le> r" and "aboveR (r # R) w"
  shows "aboveR (r # popR R r) w"
  using assms
proof (induction R r rule: popR.induct)
  case (1 q p rest r)
  show ?case
  proof (cases "exactOrientation p q r \<noteq> leftTurn")
    case False
    then show ?thesis using 1(5) by simp
  next
    case True
    then have cp: "crossProduct p q r \<le> 0" by (simp add: exactOrientation_left)
    have pq: "p < q" and qr: "q \<le> r" using 1(2,4) by auto
    have "aboveR (r # p # rest) w"
    proof -
      from 1(5) consider
          (top) "q \<le> w" "w \<le> r" "0 \<le> crossProduct q r w"
        | (mid) "p \<le> w" "w \<le> q" "0 \<le> crossProduct p q w"
        | (low) "aboveR (p # rest) w" by auto
      then show ?thesis
      proof cases
        case top
        have "0 \<le> crossProduct p r w" using below_edge_second[OF pq qr cp top] .
        moreover have "p \<le> w" using pq top(1) by simp
        ultimately show ?thesis using top(2) by simp
      next
        case mid
        have "0 \<le> crossProduct p r w" using below_edge_first[OF pq qr cp mid(1,3)] .
        moreover have "w \<le> r" using mid(2) qr by simp
        ultimately show ?thesis using mid(1) by simp
      next
        case low
        then show ?thesis by simp
      qed
    qed
    moreover have "sorted_wrt (>) (p # rest)" using 1(2) by simp
    moreover have "hd (p # rest) \<le> r" using pq qr by simp
    ultimately have "aboveR (r # popR (p # rest) r) w" using 1(1)[OF True] by simp
    then show ?thesis using True by simp
  qed
qed auto

lemma sorted_desc_hd: "sorted_wrt (>) (R :: XY list) \<Longrightarrow> x \<in> set R \<Longrightarrow> x \<le> hd R"
  by (cases R) auto

lemma hullInv_step:
  assumes inv: "hullInv R W" and r: "\<forall>w \<in> W. w \<le> r"
  shows "hullInv (r # popR R r) (insert r W)"
proof -
  from inv have len: "2 \<le> length R" and srt: "sorted_wrt (>) R" and cvx: "convexR R"
    and abv: "\<forall>w \<in> W. aboveR R w" and sub: "set R \<subseteq> W"
    and top: "\<forall>w \<in> W. w \<le> hd R" and bot: "\<forall>w \<in> W. last R \<le> w"
    unfolding hullInv_def by auto
  have ne: "R \<noteq> []" using len by auto
  have hdW: "hd R \<in> W" and lastW: "last R \<in> W" using ne sub by auto
  have hdr: "hd R \<le> r" using hdW r by blast
  let ?R = "popR R r"
  have ne': "?R \<noteq> []" using ne by (rule popR_nonempty)
  have srt': "sorted_wrt (>) ?R" using srt by (rule popR_sorted)
  have hd': "hd ?R < r" using popR_hd_less[OF srt len hdr] .
  have "\<forall>x \<in> set ?R. x < r"
    using sorted_desc_hd[OF srt'] hd' by (meson le_less_trans)
  then have s1: "sorted_wrt (>) (r # ?R)" using srt' by auto
  have s2: "convexR (r # ?R)"
  proof (cases ?R)
    case Nil
    then show ?thesis using ne' by simp
  next
    case (Cons q R2)
    show ?thesis
    proof (cases R2)
      case Nil
      then show ?thesis using Cons by simp
    next
      case (Cons p rest)
      then have e: "?R = q # p # rest" using \<open>?R = q # R2\<close> by simp
      have "0 < crossProduct p q r" using popR_top_left[OF e] .
      moreover have "convexR ?R" using cvx by (rule popR_convex)
      ultimately show ?thesis using e by simp
    qed
  qed
  have s3: "\<forall>w \<in> insert r W. aboveR (r # ?R) w"
  proof
    fix w assume w: "w \<in> insert r W"
    show "aboveR (r # ?R) w"
    proof (cases "w \<in> W")
      case True
      then have "aboveR R w" using abv by blast
      moreover obtain q R2 where "R = q # R2" using ne by (cases R) auto
      ultimately have "aboveR (r # R) w" by simp
      then show ?thesis using popR_above[OF srt ne hdr] by blast
    next
      case False
      then have wr: "w = r" using w by simp
      obtain q rest where e: "?R = q # rest" using ne' by (cases ?R) auto
      have "q \<le> r" using hd' e by simp
      then show ?thesis using e wr by simp
    qed
  qed
  have s4: "set (r # ?R) \<subseteq> insert r W" using popR_set[of R r] sub by auto
  have s5: "\<forall>w \<in> insert r W. w \<le> hd (r # ?R)" using r by auto
  have "last (r # ?R) = last R" using ne' popR_last[OF ne] by simp
  then have s6: "\<forall>w \<in> insert r W. last (r # ?R) \<le> w" using bot lastW r by auto
  have s0: "2 \<le> length (r # ?R)" using ne' by (cases ?R) auto
  show ?thesis unfolding hullInv_def using s0 s1 s2 s3 s4 s5 s6 by blast
qed

lemma degenerate_step:
  assumes "degenerate R W" and "\<forall>w \<in> W. w \<le> r"
  shows "degenerate (r # popR R r) (insert r W) \<or> hullInv (r # popR R r) (insert r W)"
proof -
  from assms(1) obtain a where R: "R = [a] \<or> R = [a, a]" and W: "W = {a}"
    unfolding degenerate_def by blast
  have ar: "a \<le> r" using assms(2) W by simp
  have pop: "popR R r = [a]" using R by (auto simp: exactOrientation_def)
  show ?thesis
  proof (cases "a = r")
    case True
    then show ?thesis using pop W unfolding degenerate_def by auto
  next
    case False
    then have "a < r" using ar by simp
    then have "hullInv [r, a] {r, a}" unfolding hullInv_def by auto
    then show ?thesis using pop W by (simp add: insert_commute)
  qed
qed

lemma scan_fold:
  assumes "degenerate R W \<or> hullInv R W" and "sorted xs" and "\<forall>w \<in> W. \<forall>x \<in> set xs. w \<le> x"
  shows "degenerate (foldl (\<lambda>st r. r # popR st r) R xs) (W \<union> set xs)
       \<or> hullInv (foldl (\<lambda>st r. r # popR st r) R xs) (W \<union> set xs)"
  using assms
proof (induction xs arbitrary: R W)
  case Nil
  then show ?case by simp
next
  case (Cons x xs)
  have wx: "\<forall>w \<in> W. w \<le> x" using Cons.prems(3) by simp
  have step: "degenerate (x # popR R x) (insert x W) \<or> hullInv (x # popR R x) (insert x W)"
    using Cons.prems(1) degenerate_step[OF _ wx] hullInv_step[OF _ wx] by blast
  have srt: "sorted xs" using Cons.prems(2) by simp
  have le: "\<forall>w \<in> insert x W. \<forall>y \<in> set xs. w \<le> y" using Cons.prems(2,3) by auto
  from Cons.IH[OF step srt le] show ?case by (simp add: insert_commute Un_commute)
qed

theorem scanR_hull:
  assumes "sorted X" and "X \<noteq> []" and "hd X < last X"
  shows "hullInv (scanR X) (set X)"
proof -
  obtain x xs where X: "X = x # xs" using assms(2) by (cases X) auto
  have d: "degenerate [x] {x} \<or> hullInv [x] {x}" by (simp add: degenerate_def)
  have srt: "sorted xs" using assms(1) X by simp
  have le: "\<forall>w \<in> {x}. \<forall>y \<in> set xs. w \<le> y" using assms(1) X by simp
  from scan_fold[OF d srt le]
  have "degenerate (scanR X) (set X) \<or> hullInv (scanR X) (set X)"
    by (simp add: scanR_def X)
  moreover have "\<not> degenerate (scanR X) (set X)"
  proof
    assume "degenerate (scanR X) (set X)"
    then obtain a where "set X = {a}" unfolding degenerate_def by blast
    moreover have "hd X \<in> set X" "last X \<in> set X" using assms(2) by auto
    ultimately show False using assms(3) by auto
  qed
  ultimately show ?thesis by blast
qed

lemma aboveR_le_hd: "sorted_wrt (>) R \<Longrightarrow> aboveR R w \<Longrightarrow> w \<le> hd R"
proof (induction R w rule: aboveR.induct)
  case (1 q p rest w)
  then show ?case by (auto intro: order_trans less_imp_le)
qed auto

lemma left_of_top_edge:
  assumes "sorted_wrt (>) (t # q # rest)" and "convexR (t # q # rest)"
    and "aboveR (q # rest) w" and "w < q"
  shows "0 < crossProduct q t w"
  using assms
proof (induction rest arbitrary: t q)
  case Nil
  then show ?case by simp
next
  case (Cons p rest)
  have pq: "p < q" and qt: "q < t" using Cons.prems(1) by auto
  have turn: "0 < crossProduct p q t" and cvx: "convexR (q # p # rest)"
    using Cons.prems(2) by auto
  have srt: "sorted_wrt (>) (q # p # rest)" using Cons.prems(1) by simp
  have "0 \<le> crossProduct p q w"
  proof (cases "p \<le> w \<and> w \<le> q \<and> 0 \<le> crossProduct p q w")
    case True
    then show ?thesis by simp
  next
    case False
    then have ab: "aboveR (p # rest) w" using Cons.prems(3) by auto
    have "w \<le> p" using aboveR_le_hd[OF _ ab] srt by simp
    show ?thesis
    proof (cases "w = p")
      case True
      then show ?thesis by simp
    next
      case False
      then have "w < p" using \<open>w \<le> p\<close> by simp
      from Cons.IH[OF srt cvx ab this] show ?thesis by simp
    qed
  qed
  from left_of_next_edge[OF pq qt turn Cons.prems(4) this] show ?case .
qed

lemma next_vertex_not_below:
  assumes "sorted_wrt (>) (t # q # rest)" and "convexR (t # q # rest)"
    and "sorted_wrt (>) (t # q' # rest')"
    and "aboveR (t # q # rest) q'" and "aboveR (t # q' # rest') q"
  shows "\<not> q' < q"
proof
  assume lt: "q' < q"
  have "aboveR (q # rest) q'" using assms(4) lt by auto
  from left_of_top_edge[OF assms(1,2) this lt] have a: "0 < crossProduct q t q'" .
  have "\<not> aboveR (q' # rest') q"
  proof
    assume "aboveR (q' # rest') q"
    then have "q \<le> q'" using aboveR_le_hd[of "q' # rest'" q] assms(3) by simp
    then show False using lt by simp
  qed
  then have "0 \<le> crossProduct q' t q" using assms(5) by auto
  then show False using a crossProduct_swap[of q' t q] by simp
qed

lemma chain_unique:
  assumes "sorted_wrt (>) (t # S)" and "convexR (t # S)"
    and "sorted_wrt (>) (t # S')" and "convexR (t # S')"
    and "last (t # S) = last (t # S')"
    and "\<forall>w \<in> set S'. aboveR (t # S) w"
    and "\<forall>w \<in> set S. aboveR (t # S') w"
  shows "S = S'"
  using assms
proof (induction S arbitrary: t S')
  case Nil
  show ?case
  proof (cases S')
    case Nil
    then show ?thesis by simp
  next
    case (Cons q' rest')
    then have "last (t # S') \<in> set S'" by simp
    then have "last (t # S') < t" using Nil.prems(3) by auto
    then show ?thesis using Nil.prems(5) by simp
  qed
next
  case (Cons q rest)
  show ?case
  proof (cases S')
    case Nil
    have "last (t # q # rest) \<in> set (q # rest)" by simp
    then have "last (t # q # rest) < t" using Cons.prems(1) by auto
    then show ?thesis using Cons.prems(5) Nil by simp
  next
    case S': (Cons q' rest')
    have a1: "aboveR (t # q # rest) q'" using Cons.prems(6) S' by simp
    have a2: "aboveR (t # q' # rest') q" using Cons.prems(7) S' by simp
    have n1: "\<not> q' < q"
      using next_vertex_not_below[OF Cons.prems(1,2) Cons.prems(3)[unfolded S'] a1 a2] .
    have n2: "\<not> q < q'"
      using next_vertex_not_below[OF Cons.prems(3)[unfolded S'] Cons.prems(4)[unfolded S']
          Cons.prems(1) a2 a1] .
    have eq: "q = q'" using n1 n2 by simp
    have "rest = rest'"
    proof (rule Cons.IH)
      show "sorted_wrt (>) (q # rest)" using Cons.prems(1) by simp
      show "convexR (q # rest)" using Cons.prems(2) convexR_tail by blast
      show "sorted_wrt (>) (q # rest')" using Cons.prems(3) S' eq by simp
      show "convexR (q # rest')" using Cons.prems(4) S' eq convexR_tail by blast
      show "last (q # rest) = last (q # rest')" using Cons.prems(5) S' eq by simp
      show "\<forall>w \<in> set rest'. aboveR (q # rest) w"
      proof
        fix w assume w: "w \<in> set rest'"
        then have "w < q" using Cons.prems(3) S' eq by auto
        moreover have "aboveR (t # q # rest) w" using Cons.prems(6) S' w by simp
        ultimately show "aboveR (q # rest) w" by auto
      qed
      show "\<forall>w \<in> set rest. aboveR (q # rest') w"
      proof
        fix w assume w: "w \<in> set rest"
        then have "w < q" using Cons.prems(1) by auto
        moreover have "aboveR (t # q # rest') w" using Cons.prems(7) S' eq w by simp
        ultimately show "aboveR (q # rest') w" by auto
      qed
    qed
    then show ?thesis using eq S' by simp
  qed
qed

theorem hull_unique:
  assumes "hullInv R W" and "hullInv R' W'" and "set R' \<subseteq> W" and "set R \<subseteq> W'"
    and "hd R = hd R'" and "last R = last R'"
  shows "R = R'"
proof -
  obtain t S where R: "R = t # S" using assms(1) unfolding hullInv_def by (cases R) auto
  obtain t' S' where R': "R' = t' # S'" using assms(2) unfolding hullInv_def by (cases R') auto
  have t: "t' = t" using assms(5) R R' by simp
  have "S = S'"
  proof (rule chain_unique[of t])
    show "sorted_wrt (>) (t # S)" "convexR (t # S)" using assms(1) R unfolding hullInv_def by auto
    show "sorted_wrt (>) (t # S')" "convexR (t # S')"
      using assms(2) R' t unfolding hullInv_def by auto
    show "last (t # S) = last (t # S')" using assms(6) R R' t by simp
    show "\<forall>w \<in> set S'. aboveR (t # S) w"
      using assms(1,3) R R' unfolding hullInv_def by auto
    show "\<forall>w \<in> set S. aboveR (t # S') w"
      using assms(2,4) R R' t unfolding hullInv_def by auto
  qed
  then show ?thesis using R R' t by simp
qed

lemma popR_short: "length R < 2 \<Longrightarrow> popR R p = R"
proof (cases R)
  case Nil
  then show ?thesis by simp
next
  case (Cons a R')
  assume "length R < 2"
  then have "R' = []" using Cons by simp
  then show ?thesis using Cons by simp
qed

lemma two_at_end:
  assumes "2 \<le> length (st :: XY list)"
  obtains ys a b where "st = ys @ [a, b]"
proof -
  obtain b zs where 1: "rev st = b # zs" using assms by (cases "rev st") auto
  obtain a zs' where 2: "zs = a # zs'" using assms 1
    by (cases zs) (auto simp: length_Suc_conv dest: arg_cong[of _ _ length])
  have "st = rev (b # a # zs')" using 1 2 by (simp add: rev_swap)
  then have "st = rev zs' @ [a, b]" by simp
  then show ?thesis using that by blast
qed

lemma hullPop_rev: "rev (hullPop exactOrientation st p) = popR (rev st) p"
proof (induction "length st" arbitrary: st rule: less_induct)
  case less
  show ?case
  proof (cases "2 \<le> length st")
    case False
    then have "length (rev st) < 2" by simp
    then have "popR (rev st) p = rev st" by (rule popR_short)
    then show ?thesis using False by (subst hullPop.simps) simp
  next
    case True
    then obtain ys a b where st: "st = ys @ [a, b]" by (rule two_at_end)
    have n1: "st ! (length st - 1) = b" and n2: "st ! (length st - 2) = a"
      by (simp_all add: st nth_append)
    have bl: "butlast st = ys @ [a]" by (simp add: st butlast_append)
    show ?thesis
    proof (cases "exactOrientation a b p \<noteq> leftTurn")
      case t: True
      then have "hullPop exactOrientation st p = hullPop exactOrientation (butlast st) p"
        using True n1 n2 by (subst hullPop.simps) simp
      moreover have "rev (hullPop exactOrientation (butlast st) p) = popR (rev (butlast st)) p"
        using less[of "butlast st"] True by simp
      ultimately have "rev (hullPop exactOrientation st p) = popR (a # rev ys) p" by (simp add: bl)
      then show ?thesis using t by (simp add: st)
    next
      case f: False
      then have "hullPop exactOrientation st p = st" using n1 n2 by (subst hullPop.simps) simp
      then show ?thesis using f by (simp add: st)
    qed
  qed
qed

lemma foldl_hullPush_rev:
  "rev (foldl (hullPush exactOrientation) st xs) = foldl (\<lambda>st r. r # popR st r) (rev st) xs"
  by (induction xs arbitrary: st) (simp_all add: hullPush_def hullPop_rev)

lemma lower_scanR: "foldl (hullPush exactOrientation) [] xs = rev (scanR xs)"
  using foldl_hullPush_rev[of "[]" xs] by (simp add: scanR_def rev_swap)

lemma neg_neg [simp]: "neg (neg p) = p"
  by (simp add: neg_def)

lemma inj_neg: "inj neg"
  by (metis injI neg_neg)

lemma crossProduct_neg [simp]: "crossProduct (neg a) (neg b) (neg c) = crossProduct a b c"
  by (simp add: crossProduct_def neg_def algebra_simps)

lemma exactOrientation_neg [simp]: "exactOrientation (neg a) (neg b) (neg c) = exactOrientation a b c"
  by (simp add: exactOrientation_def)

lemma neg_less [simp]: "neg a < neg b \<longleftrightarrow> b < a"
  by (auto simp: less_XY neg_def)

lemma neg_le [simp]: "neg a \<le> neg b \<longleftrightarrow> b \<le> a"
  by (auto simp: le_XY neg_def)

lemma popR_neg: "popR (map neg R) (neg r) = map neg (popR R r)"
  by (induction R r rule: popR.induct) auto

lemma foldl_scan_neg:
  "foldl (\<lambda>st r. r # popR st r) (map neg R) (map neg xs)
     = map neg (foldl (\<lambda>st r. r # popR st r) R xs)"
proof (induction xs arbitrary: R)
  case Nil
  then show ?case by simp
next
  case (Cons x xs)
  have "neg x # popR (map neg R) (neg x) = map neg (x # popR R x)" by (simp add: popR_neg)
  then show ?case using Cons[of "x # popR R x"] by simp
qed

lemma scanR_neg: "scanR (map neg xs) = map neg (scanR xs)"
  using foldl_scan_neg[of "[]" xs] by (simp add: scanR_def)

lemma sorted_neg_rev: "sorted (xs :: XY list) \<Longrightarrow> sorted (map neg (rev xs))"
  by (induction xs) (auto simp: sorted_append)

lemma sorted_le_last: "sorted (xs :: XY list) \<Longrightarrow> x \<in> set xs \<Longrightarrow> x \<le> last xs"
  by (induction xs) auto

lemma sorted_hd_le: "sorted (xs :: XY list) \<Longrightarrow> x \<in> set xs \<Longrightarrow> hd xs \<le> x"
  by (cases xs) auto

lemma hullInv_ends:
  assumes "hullInv R (set X)" and "sorted X" and "X \<noteq> []"
  shows "hd R = last X" and "last R = hd X"
proof -
  from assms(1) have ne: "R \<noteq> []" and sub: "set R \<subseteq> set X"
    and top: "\<forall>w \<in> set X. w \<le> hd R" and bot: "\<forall>w \<in> set X. last R \<le> w"
    unfolding hullInv_def by auto
  have "hd R \<in> set X" "last R \<in> set X" using ne sub by auto
  moreover have "\<forall>x \<in> set X. x \<le> last X"
    using assms(2) sorted_le_last by blast
  moreover have "\<forall>x \<in> set X. hd X \<le> x"
    using assms(2) sorted_hd_le by blast
  moreover have "hd X \<in> set X" "last X \<in> set X" using assms(3) by auto
  ultimately show "hd R = last X" and "last R = hd X"
    using top bot by (auto intro: antisym)
qed

lemma scanR_of_subset:
  assumes X: "sorted X" "X \<noteq> []" "hd X < last X"
    and Y: "sorted Y" "set Y \<subseteq> set X" "set (scanR X) \<subseteq> set Y"
  shows "scanR Y = scanR X"
proof -
  have hx: "hullInv (scanR X) (set X)" using X by (rule scanR_hull)
  note ex = hullInv_ends[OF hx X(1,2)]
  have neR: "scanR X \<noteq> []" using hx unfolding hullInv_def by auto
  have mx: "last X \<in> set Y" and mn: "hd X \<in> set Y"
    using ex neR Y(3) by (metis hd_in_set subsetD, metis last_in_set subsetD)
  have neY: "Y \<noteq> []" using mx by auto
  have "hd Y \<in> set X" "last Y \<in> set X" using neY Y(2) by auto
  then have "hd X \<le> hd Y" "last Y \<le> last X"
    using sorted_hd_le[OF X(1)] sorted_le_last[OF X(1)] by auto
  moreover have "hd Y \<le> hd X" "last X \<le> last Y"
    using sorted_hd_le[OF Y(1) mn] sorted_le_last[OF Y(1) mx] by auto
  ultimately have ends: "hd Y = hd X" "last Y = last X" by auto
  have hy: "hullInv (scanR Y) (set Y)"
    using Y(1) neY X(3) ends by (intro scanR_hull) auto
  note ey = hullInv_ends[OF hy Y(1) neY]
  have "set (scanR Y) \<subseteq> set X" using hy Y(2) unfolding hullInv_def by auto
  from hull_unique[OF hx hy this Y(3)] ex ey ends show ?thesis by simp
qed

lemma scanR_rev_of_subset:
  assumes X: "sorted X" "X \<noteq> []" "hd X < last X"
    and Y: "sorted Y" "set Y \<subseteq> set X" "set (scanR (rev X)) \<subseteq> set Y"
  shows "scanR (rev Y) = scanR (rev X)"
proof -
  let ?X = "map neg (rev X)" and ?Y = "map neg (rev Y)"
  have "scanR ?Y = scanR ?X"
  proof (rule scanR_of_subset)
    show "sorted ?X" "sorted ?Y" using X(1) Y(1) by (simp_all add: sorted_neg_rev)
    show "?X \<noteq> []" using X(2) by simp
    show "hd ?X < last ?X" using X(2,3) by (simp add: hd_map last_map hd_rev last_rev)
    show "set ?Y \<subseteq> set ?X" using Y(2) by auto
    show "set (scanR ?X) \<subseteq> set ?Y" using Y(3) by (auto simp: scanR_neg)
  qed
  then have "map neg (scanR (rev Y)) = map neg (scanR (rev X))" by (simp add: scanR_neg)
  then show ?thesis using inj_neg by (simp add: inj_map_eq_map)
qed

lemma upper_ends:
  assumes "sorted X" "X \<noteq> []" "hd X < last X"
  shows "hd (scanR (rev X)) = hd X" and "last (scanR (rev X)) = last X"
    and "sorted_wrt (<) (scanR (rev X))" and "2 \<le> length (scanR (rev X))"
    and "set (scanR (rev X)) \<subseteq> set X"
proof -
  let ?X = "map neg (rev X)"
  have s: "sorted ?X" "?X \<noteq> []" "hd ?X < last ?X"
    using assms by (simp_all add: sorted_neg_rev hd_map last_map hd_rev last_rev)
  have h: "hullInv (map neg (scanR (rev X))) (set ?X)"
    using scanR_hull[OF s] by (simp add: scanR_neg)
  then have ne: "scanR (rev X) \<noteq> []" unfolding hullInv_def by auto
  from hullInv_ends[OF h s(1,2)] ne assms(2)
  have "neg (hd (scanR (rev X))) = neg (hd X)" "neg (last (scanR (rev X))) = neg (last X)"
    by (simp_all add: hd_map last_map hd_rev last_rev)
  then show "hd (scanR (rev X)) = hd X" and "last (scanR (rev X)) = last X"
    using inj_neg by (auto dest: injD)
  have "sorted_wrt (>) (map neg (scanR (rev X)))" using h unfolding hullInv_def by auto
  then show "sorted_wrt (<) (scanR (rev X))" by (simp add: sorted_wrt_map)
  show "2 \<le> length (scanR (rev X))" using h unfolding hullInv_def by auto
  have "set (map neg (scanR (rev X))) \<subseteq> set ?X" using h unfolding hullInv_def by auto
  then have "neg ` set (scanR (rev X)) \<subseteq> neg ` set X" by simp
  then show "set (scanR (rev X)) \<subseteq> set X" using inj_neg by (simp add: inj_image_subset_iff)
qed

lemma lower_ends:
  assumes "sorted X" "X \<noteq> []" "hd X < last X"
  shows "hd (scanR X) = last X" and "last (scanR X) = hd X"
    and "sorted_wrt (>) (scanR X)" and "2 \<le> length (scanR X)"
    and "set (scanR X) \<subseteq> set X"
proof -
  have h: "hullInv (scanR X) (set X)" using assms by (rule scanR_hull)
  from hullInv_ends[OF h assms(1,2)]
  show "hd (scanR X) = last X" and "last (scanR X) = hd X" by auto
  show "sorted_wrt (>) (scanR X)" "2 \<le> length (scanR X)" "set (scanR X) \<subseteq> set X"
    using h unfolding hullInv_def by auto
qed

lemma monotoneChain_chainOf:
  assumes "sort pts \<noteq> []" and "hd (sort pts) < last (sort pts)"
  shows "monotoneChain exactOrientation pts = Inr (chainOf (sort pts))"
proof -
  have "scanR (rev (sort pts)) \<noteq> []"
    using upper_ends(4)[OF sorted_sort assms] by auto
  then show ?thesis
    by (simp add: monotoneChain_def Let_def lower_scanR chainOf_def)
qed

lemma set_chainOf:
  assumes "sorted X" "X \<noteq> []" "hd X < last X"
  shows "set (chainOf X) = set (scanR X) \<union> set (scanR (rev X))"
proof -
  let ?U = "scanR (rev X)"
  have ne: "?U \<noteq> []" using upper_ends(4)[OF assms] by auto
  have "hd (rev ?U) = last X" using upper_ends(2)[OF assms] ne by (simp add: hd_rev)
  moreover have "last X \<in> set (scanR X)"
    using lower_ends(1,4)[OF assms] by (metis hd_in_set length_0_conv not_numeral_le_zero)
  moreover have "set (rev ?U) = insert (hd (rev ?U)) (set (tl (rev ?U)))"
    using ne by (cases "rev ?U") auto
  ultimately show ?thesis unfolding chainOf_def by auto
qed

theorem monotoneChain_idempotent:
  assumes "sort pts \<noteq> []" and "hd (sort pts) < last (sort pts)"
  shows "\<exists>h. monotoneChain exactOrientation pts = Inr h \<and> monotoneChain exactOrientation h = Inr h"
proof -
  let ?X = "sort pts"
  let ?H = "chainOf ?X"
  let ?Y = "sort ?H"
  have X: "sorted ?X" "?X \<noteq> []" "hd ?X < last ?X" using assms by simp_all
  have sH: "set ?H = set (scanR ?X) \<union> set (scanR (rev ?X))" using set_chainOf[OF X] .
  have subH: "set ?H \<subseteq> set ?X" using sH lower_ends(5)[OF X] upper_ends(5)[OF X] by auto
  have Y: "sorted ?Y" "set ?Y \<subseteq> set ?X" "set (scanR ?X) \<subseteq> set ?Y" "set (scanR (rev ?X)) \<subseteq> set ?Y"
    using subH sH by auto
  have l: "scanR ?Y = scanR ?X" using scanR_of_subset[OF X Y(1,2,3)] .
  have u: "scanR (rev ?Y) = scanR (rev ?X)" using scanR_rev_of_subset[OF X Y(1,2,4)] .
  have ne: "scanR (rev ?X) \<noteq> []" using upper_ends(4)[OF X] by auto
  have "monotoneChain exactOrientation ?H = Inr ?H"
    unfolding monotoneChain_def Let_def lower_scanR l u using ne by (simp add: chainOf_def)
  then show ?thesis using monotoneChain_chainOf[OF assms] by simp
qed

lemma two_distinct_sorted:
  assumes "hasAtLeast2DistinctPoints pts"
  shows "sort pts \<noteq> []" and "hd (sort pts) < last (sort pts)"
proof -
  obtain p rest where pts: "pts = p # rest" and ex: "list_ex (\<lambda>pt. pt \<noteq> p) rest"
    using assms unfolding hasAtLeast2DistinctPoints_def by (cases pts) simp_all
  from ex obtain q where q: "q \<in> set rest" "q \<noteq> p" unfolding list_ex_iff by blast
  have "p \<in> set pts" "q \<in> set pts" using pts q by auto
  then have mem: "p \<in> set (sort pts)" "q \<in> set (sort pts)" by (simp_all only: set_sort)
  show ne: "sort pts \<noteq> []"
  proof
    assume e: "sort pts = []"
    show False using mem(1) unfolding e by simp
  qed
  let ?S = "sort pts"
  have a: "hd ?S \<le> p" "hd ?S \<le> q" using sorted_hd_le[OF sorted_sort] mem by blast+
  have b: "p \<le> last ?S" "q \<le> last ?S" using sorted_le_last[OF sorted_sort] mem by blast+
  show "hd ?S < last ?S"
  proof (rule ccontr)
    assume "\<not> hd ?S < last ?S"
    then have c: "last ?S \<le> hd ?S" by simp
    have "p \<le> q" using order_trans[OF b(1) order_trans[OF c a(2)]] .
    moreover have "q \<le> p" using order_trans[OF b(2) order_trans[OF c a(1)]] .
    ultimately show False using q(2) by simp
  qed
qed

lemma chain_parts:
  assumes "sorted X" "X \<noteq> []" "hd X < last X"
  shows "sorted_wrt (<) (rev (scanR X))" and "2 \<le> length (rev (scanR X))"
    and "hd (rev (scanR X)) = hd X"
    and "sorted_wrt (>) (rev (scanR (rev X)))" and "2 \<le> length (rev (scanR (rev X)))"
    and "last (rev (scanR (rev X))) = hd X"
proof -
  note l = lower_ends[OF assms] and u = upper_ends[OF assms]
  have nl: "scanR X \<noteq> []" and nu: "scanR (rev X) \<noteq> []" using l(4) u(4) by auto
  show "sorted_wrt (<) (rev (scanR X))" using l(3) by (simp add: sorted_wrt_rev)
  show "2 \<le> length (rev (scanR X))" using l(4) by simp
  show "hd (rev (scanR X)) = hd X" using l(2) nl by (simp add: hd_rev)
  show "sorted_wrt (>) (rev (scanR (rev X)))" using u(3) by (simp add: sorted_wrt_rev)
  show "2 \<le> length (rev (scanR (rev X)))" using u(4) by simp
  show "last (rev (scanR (rev X))) = hd X" using u(1) nu by (simp add: last_rev)
qed

lemma chainOf_two_distinct:
  assumes "sorted X" "X \<noteq> []" "hd X < last X"
  shows "hasAtLeast2DistinctPoints (chainOf X)"
proof -
  let ?L = "rev (scanR X)"
  note p = chain_parts[OF assms]
  obtain a L1 where 1: "?L = a # L1" using p(2) by (cases ?L) auto
  obtain b L2 where 2: "L1 = b # L2" using p(2) 1 by (cases L1) auto
  have "a < b" using p(1) 1 2 by simp
  then have "b \<noteq> a" by simp
  then show ?thesis
    unfolding chainOf_def hasAtLeast2DistinctPoints_def 1 2 by (auto simp: list_ex_iff)
qed

lemma chainOf_linear_half:
  assumes X: "sorted X" "X \<noteq> []" "hd X < last X"
    and lin: "isLinearHull (chainOf X) = Inr (Some half)"
  shows "half ! 0 = hd X" and "hd X < half ! (length half - 1)"
proof -
  let ?L = "rev (scanR X)" and ?U = "rev (scanR (rev X))"
  let ?H = "chainOf X"
  note p = chain_parts[OF X]
  define i where "i = length ?H div 2"
  have H: "?H = ?L @ tl ?U" by (simp add: chainOf_def)
  have lenH: "length ?H = length ?L + (length ?U - 1)" by (simp add: H)
  have odd: "length ?H mod 2 \<noteq> 0" and i0: "i \<noteq> 0" and half: "half = take (i + 1) ?H"
    using lin unfolding isLinearHull_def Let_def i_def by (auto split: if_splits)
  have len3: "3 \<le> length ?H" using lenH p(2,5) by linarith
  have i1: "1 \<le> i" using i0 by simp
  have i2: "i + 2 \<le> length ?H" using odd len3 unfolding i_def by presburger
  have lh: "length half = i + 1" using half i2 by simp
  have h0: "half ! 0 = ?H ! 0" using half by simp
  have hi: "half ! (length half - 1) = ?H ! i" using half lh by simp
  have neL: "?L \<noteq> []" using p(2) by auto
  have "?H ! 0 = hd ?L" using neL by (simp add: H nth_append hd_conv_nth)
  then show "half ! 0 = hd X" using h0 p(3) by simp
  have "hd X < ?H ! i"
  proof (cases "i < length ?L")
    case True
    have "?L ! 0 < ?L ! i" using p(1) True i1 by (simp add: sorted_wrt_nth_less)
    moreover have "?L ! 0 = hd X" using p(3) neL by (simp add: hd_conv_nth)
    ultimately show ?thesis using True by (simp add: H nth_append)
  next
    case False
    define k where "k = i - length ?L + 1"
    have neU: "?U \<noteq> []" using p(5) by auto
    have k: "k < length ?U - 1" using False i2 lenH unfolding k_def by linarith
    have "?H ! i = tl ?U ! (i - length ?L)" using False by (simp add: H nth_append)
    also have "\<dots> = ?U ! k" using k unfolding k_def by (simp add: nth_tl)
    finally have e: "?H ! i = ?U ! k" .
    have "?U ! (length ?U - 1) < ?U ! k"
      using sorted_wrt_nth_less[OF p(4), of k "length ?U - 1"] k by simp
    moreover have "?U ! (length ?U - 1) = hd X" using p(6) neU by (simp add: last_conv_nth)
    ultimately show ?thesis using e by simp
  qed
  then show "hd X < half ! (length half - 1)" using hi by simp
qed

lemma hullPush_short: "length st < 2 \<Longrightarrow> hullPush orient st p = st @ [p]"
  by (simp add: hullPush_def hullPop.simps)

lemma convexHull_two_points:
  assumes "a < x"
  shows "convexHull exactOrientation ringValid polygonValid (LineString [a, x]) = Inr (LineString [a, x])"
proof -
  have s: "sort [a, x] = [a, x]" using assms by (simp add: less_imp_le)
  have two: "hasAtLeast2DistinctPoints [a, x]"
    using assms by (simp add: hasAtLeast2DistinctPoints_def)
  have mc: "monotoneChain exactOrientation [a, x] = Inr [a, x, a]"
    unfolding monotoneChain_def s Let_def by (simp add: hullPush_short)
  have lin: "isLinearHull [a, x, a] = Inr (Some [a, x])"
    by (simp add: isLinearHull_def)
  show ?thesis
    unfolding convexHull_def Let_def using two mc lin by simp
qed

lemma convexHull_exact_idempotent:
  assumes "convexHull exactOrientation ringValid polygonValid g = Inr h"
  shows "convexHull exactOrientation ringValid polygonValid h = Inr h"
proof (cases "isEmpty g")
  case True
  then have "h = g" using assms by (simp add: convexHull_def)
  then show ?thesis using True by (simp add: convexHull_def)
next
  case ne: False
  let ?pts = "convexHullPointSet g"
  show ?thesis
  proof (cases "hasAtLeast2DistinctPoints ?pts")
    case False
    then obtain p where "h = Point (Some p)"
      using assms ne unfolding convexHull_def Let_def by (cases ?pts) auto
    then show ?thesis
      by (simp add: convexHull_def pointXY_def hasAtLeast2DistinctPoints_def)
  next
    case two: True
    let ?X = "sort ?pts"
    note X = sorted_sort[of ?pts] two_distinct_sorted[OF two]
    have mc: "monotoneChain exactOrientation ?pts = Inr (chainOf ?X)"
      using monotoneChain_chainOf[OF two_distinct_sorted[OF two]] .
    have fx: "monotoneChain exactOrientation (chainOf ?X) = Inr (chainOf ?X)"
      using monotoneChain_idempotent[OF two_distinct_sorted[OF two]] mc by simp
    obtain r where lin: "isLinearHull (chainOf ?X) = Inr r"
      using assms ne two mc unfolding convexHull_def Let_def
      by (cases "isLinearHull (chainOf ?X)") auto
    show ?thesis
    proof (cases r)
      case (Some half)
      then have h: "h = LineString [half ! 0, half ! (length half - 1)]"
        using assms ne two mc lin unfolding convexHull_def Let_def by simp
      have "half ! 0 < half ! (length half - 1)"
        using chainOf_linear_half[OF X lin[unfolded Some]] by simp
      then show ?thesis unfolding h by (rule convexHull_two_points)
    next
      case None
      then have ok: "ringValid (chainOf ?X)" "polygonValid [chainOf ?X]"
        and h: "h = Polygon [chainOf ?X]"
        using assms ne two mc lin unfolding convexHull_def Let_def by (auto split: if_splits)
      have ne': "\<not> isEmpty h" using h by simp
      have pts': "convexHullPointSet h = chainOf ?X" using h by (simp add: exteriorRing_def)
      have two': "hasAtLeast2DistinctPoints (chainOf ?X)" using chainOf_two_distinct[OF X] .
      show ?thesis
        unfolding convexHull_def Let_def using ne' pts' two' fx lin None ok h by simp
    qed
  qed
qed


lemma hullPop_set: "set (hullPop orient st p) \<subseteq> set st"
proof (induction "length st" arbitrary: st rule: less_induct)
  case less
  show ?case
  proof (cases "2 \<le> length st
      \<and> orient (st ! (length st - 2)) (st ! (length st - 1)) p \<noteq> leftTurn")
    case True
    then have "hullPop orient st p = hullPop orient (butlast st) p"
      by (subst hullPop.simps) simp
    moreover have "length (butlast st) < length st" using True by (cases st) auto
    then have "set (hullPop orient (butlast st) p) \<subseteq> set (butlast st)"
      by (rule less)
    moreover have "set (butlast st) \<subseteq> set st" by (auto dest: in_set_butlastD)
    ultimately show ?thesis by simp
  next
    case False
    then have "hullPop orient st p = st" by (subst hullPop.simps) auto
    then show ?thesis by simp
  qed
qed

lemma foldl_hullPush_set: "set (foldl (hullPush orient) st xs) \<subseteq> set st \<union> set xs"
proof (induction xs arbitrary: st)
  case Nil
  show ?case by simp
next
  case (Cons x xs)
  have "set (hullPush orient st x) \<subseteq> set st \<union> {x}"
    using hullPop_set[of orient st x] by (auto simp: hullPush_def)
  then show ?case using Cons[of "hullPush orient st x"] by auto
qed

lemma monotoneChain_set:
  assumes "monotoneChain orient pts = Inr h"
  shows "set h \<subseteq> set pts"
proof -
  let ?l = "foldl (hullPush orient) [] (sort pts)"
  let ?u = "foldl (hullPush orient) [] (rev (sort pts))"
  have h: "h = ?l @ tl ?u"
    using assms unfolding monotoneChain_def Let_def by (auto split: if_splits)
  have "set ?l \<subseteq> set pts" using foldl_hullPush_set[of orient "[]" "sort pts"] by simp
  moreover have "set ?u \<subseteq> set pts"
    using foldl_hullPush_set[of orient "[]" "rev (sort pts)"] by simp
  moreover have "set (tl ?u) \<subseteq> set ?u" by (cases ?u) auto
  ultimately show ?thesis unfolding h by auto
qed

lemma exactOn_subset: "exactOn orient S \<Longrightarrow> T \<subseteq> S \<Longrightarrow> exactOn orient T"
  unfolding exactOn_def by blast

lemma hullPop_exactOn:
  assumes "exactOn orient S" and "p \<in> S"
  shows "set st \<subseteq> S \<Longrightarrow> hullPop orient st p = hullPop exactOrientation st p"
proof (induction "length st" arbitrary: st rule: less_induct)
  case less
  show ?case
  proof (cases "2 \<le> length st")
    case False
    then show ?thesis by (simp add: hullPop.simps[of _ st])
  next
    case True
    then have "length st - 2 < length st" "length st - 1 < length st" by simp_all
    then have "st ! (length st - 2) \<in> set st" "st ! (length st - 1) \<in> set st"
      by (simp_all only: nth_mem)
    then have "st ! (length st - 2) \<in> S" "st ! (length st - 1) \<in> S"
      using less.prems by blast+
    then have o: "orient (st ! (length st - 2)) (st ! (length st - 1)) p
        = exactOrientation (st ! (length st - 2)) (st ! (length st - 1)) p"
      using assms unfolding exactOn_def by blast
    have "set (butlast st) \<subseteq> S" using less.prems by (auto dest: in_set_butlastD)
    moreover have "length (butlast st) < length st" using True by (cases st) auto
    ultimately have ih: "hullPop orient (butlast st) p = hullPop exactOrientation (butlast st) p"
      using less.hyps[of "butlast st"] by simp
    have "hullPop orient st p
        = (if 2 \<le> length st \<and> orient (st ! (length st - 2)) (st ! (length st - 1)) p \<noteq> leftTurn
           then hullPop orient (butlast st) p else st)"
      by (rule hullPop.simps)
    also have "\<dots>
        = (if 2 \<le> length st
              \<and> exactOrientation (st ! (length st - 2)) (st ! (length st - 1)) p \<noteq> leftTurn
           then hullPop exactOrientation (butlast st) p else st)"
      by (simp only: o ih)
    also have "\<dots> = hullPop exactOrientation st p"
      by (rule hullPop.simps[symmetric])
    finally show ?thesis .
  qed
qed

lemma foldl_hullPush_exactOn:
  assumes "exactOn orient S"
  shows "set st \<subseteq> S \<Longrightarrow> set xs \<subseteq> S
    \<Longrightarrow> foldl (hullPush orient) st xs = foldl (hullPush exactOrientation) st xs"
proof (induction xs arbitrary: st)
  case Nil
  show ?case by simp
next
  case (Cons x xs)
  have e: "hullPush orient st x = hullPush exactOrientation st x"
    using hullPop_exactOn[OF assms, of x st] Cons.prems by (simp add: hullPush_def)
  have "set (hullPush exactOrientation st x) \<subseteq> S"
    using hullPop_set[of exactOrientation st x] Cons.prems by (auto simp: hullPush_def)
  then show ?case using Cons.IH[of "hullPush exactOrientation st x"] Cons.prems e by simp
qed

lemma monotoneChain_exactOn:
  assumes "exactOn orient S" and "set pts \<subseteq> S"
  shows "monotoneChain orient pts = monotoneChain exactOrientation pts"
  unfolding monotoneChain_def Let_def
  using foldl_hullPush_exactOn[OF assms(1), of "[]" "sort pts"]
    foldl_hullPush_exactOn[OF assms(1), of "[]" "rev (sort pts)"] assms(2)
  by simp

lemma convexHull_exactOn:
  assumes "exactOn orient S" and "set (convexHullPointSet g) \<subseteq> S"
  shows "convexHull orient ringValid polygonValid g
    = convexHull exactOrientation ringValid polygonValid g"
  unfolding convexHull_def Let_def using monotoneChain_exactOn[OF assms] by simp

lemma convexHull_points:
  assumes "convexHull orient ringValid polygonValid g = Inr h"
  shows "set (convexHullPointSet h) \<subseteq> set (convexHullPointSet g)"
proof (cases "isEmpty g")
  case True
  then show ?thesis using assms by (simp add: convexHull_def)
next
  case ne: False
  let ?pts = "convexHullPointSet g"
  show ?thesis
  proof (cases "hasAtLeast2DistinctPoints ?pts")
    case False
    then show ?thesis
      using assms ne unfolding convexHull_def Let_def
      by (cases ?pts) (auto simp: pointXY_def)
  next
    case two: True
    from assms ne two obtain H where mc: "monotoneChain orient ?pts = Inr H"
      unfolding convexHull_def Let_def by (auto split: sum.splits)
    have sub: "set H \<subseteq> set ?pts" using monotoneChain_set[OF mc] .
    from assms ne two mc obtain r where lin: "isLinearHull H = Inr r"
      unfolding convexHull_def Let_def by (auto split: sum.splits)
    show ?thesis
    proof (cases r)
      case None
      then have "h = Polygon [H]"
        using assms ne two mc lin unfolding convexHull_def Let_def by (auto split: if_splits)
      then show ?thesis using sub by (simp add: exteriorRing_def)
    next
      case (Some half)
      then have h: "h = LineString [half ! 0, half ! (length half - 1)]"
        using assms ne two mc lin unfolding convexHull_def Let_def by simp
      have half: "half = take (length H div 2 + 1) H" and odd: "length H mod 2 \<noteq> 0"
        using lin Some unfolding isLinearHull_def Let_def by (auto split: if_splits)
      have "H \<noteq> []" using odd by auto
      then have "half \<noteq> []" using half by simp
      then have "half ! 0 \<in> set half" "half ! (length half - 1) \<in> set half" by simp_all
      moreover have "set half \<subseteq> set H" unfolding half by (rule set_take_subset)
      ultimately show ?thesis using sub h by auto
    qed
  qed
qed

text \<open>
  Claim C8, as amended. \<^verbatim>\<open>convexHull\<close> is idempotent on every geometry \<open>g\<close> on whose
  points the turn test is exact, that is, returns the sign of the exact cross product
  for every three points of \<open>g\<close>: whenever it returns a geometry \<open>h\<close> for \<open>g\<close>, it
  returns \<open>h\<close> again for \<open>h\<close>. This holds for any turn test, the float64 one included,
  and for any two checks in the constructors of the ring and of the polygon.
\<close>

theorem convexHull_idempotent_where_turn_test_exact:
  assumes "exactOn orient (set (convexHullPointSet g))"
    and "convexHull orient ringValid polygonValid g = Inr h"
  shows "convexHull orient ringValid polygonValid h = Inr h"
proof -
  have "convexHull exactOrientation ringValid polygonValid g = Inr h"
    using convexHull_exactOn[OF assms(1) subset_refl] assms(2) by simp
  then have "convexHull exactOrientation ringValid polygonValid h = Inr h"
    by (rule convexHull_exact_idempotent)
  moreover have "set (convexHullPointSet h) \<subseteq> set (convexHullPointSet g)"
    using convexHull_points[OF assms(2)] .
  ultimately show ?thesis using convexHull_exactOn[OF assms(1)] by simp
qed

lemmas float64_defs = orientation_def crossProduct64_def sub64_def mul64_def round64_def
  exponent64_def exponentUp.simps exponentDown.simps roundHalfEven_def Let_def

lemmas hull_defs = convexHull_def pointXY_def exteriorRing_def hasAtLeast2DistinctPoints_def
  monotoneChain_def isLinearHull_def hullPush_def hullPop.simps less_eq_prod_def

lemma small_square_exact:
  "exactOn orientation (set (convexHullPointSet
     (MultiPoint [Some (0, 0), Some (4, 0), Some (4, 4), Some (0, 4), Some (1, 2)])))"
  by (simp add: exactOn_def pointXY_def exactOrientation_def crossProduct_def float64_defs)

lemma small_square_hull:
  "convexHull orientation (\<lambda>r. True) (\<lambda>rs. True)
     (MultiPoint [Some (0, 0), Some (4, 0), Some (4, 4), Some (0, 4), Some (1, 2)])
   = Inr (Polygon [[(0, 0), (4, 0), (4, 4), (0, 4), (0, 0)]])"
  by (simp add: hull_defs float64_defs)

theorem convexHull_idempotent_where_turn_test_exact_witness:
  "exactOn orientation (set (convexHullPointSet
     (MultiPoint [Some (0, 0), Some (4, 0), Some (4, 4), Some (0, 4), Some (1, 2)])))
   \<and> convexHull orientation (\<lambda>r. True) (\<lambda>rs. True)
       (MultiPoint [Some (0, 0), Some (4, 0), Some (4, 4), Some (0, 4), Some (1, 2)])
     = Inr (Polygon [[(0, 0), (4, 0), (4, 4), (0, 4), (0, 0)]])
   \<and> convexHull orientation (\<lambda>r. True) (\<lambda>rs. True)
       (Polygon [[(0, 0), (4, 0), (4, 4), (0, 4), (0, 0)]])
     = Inr (Polygon [[(0, 0), (4, 0), (4, 4), (0, 4), (0, 0)]])"
  using convexHull_idempotent_where_turn_test_exact[OF small_square_exact small_square_hull]
    small_square_exact small_square_hull
  by simp

text \<open>
  Claim C8, as stated, fails: with the float64 turn test the hull of these five points
  is a quadrilateral, and the hull of that quadrilateral is a triangle. The cross
  products of the nearly collinear points are of the order of \<open>2 ^ 59\<close> and round.
\<close>

theorem convexHull_idempotent_counterexample:
  "convexHull orientation (\<lambda>r. True) (\<lambda>rs. True)
     (MultiPoint [Some (594975089, 525501042), Some (666089080, 588311195), Some (0, 0),
        Some (648068748, 572395061), Some (71113991, 62810153)])
   = Inr (Polygon [[(0, 0), (71113991, 62810153), (666089080, 588311195),
        (648068748, 572395061), (0, 0)]])
   \<and> convexHull orientation (\<lambda>r. True) (\<lambda>rs. True)
       (Polygon [[(0, 0), (71113991, 62810153), (666089080, 588311195),
          (648068748, 572395061), (0, 0)]])
     = Inr (Polygon [[(0, 0), (666089080, 588311195), (648068748, 572395061), (0, 0)]])"
  by (simp add: hull_defs float64_defs)

end
